theory Spec2Isabelle
  imports Complex_Main "HOL-Library.Multiset" "HOL-Library.Sublist"
begin

section \<open>JavaScript values used by the retrieval core\<close>

subsection \<open>Numbers\<close>

text \<open>
  A JavaScript number is \<open>NaN\<close>, one of the two infinities, or a finite double. A finite
  double is modelled by the exact rational (or integer) it stands for, and arithmetic on
  finite numbers is exact: the rounding of a result (which includes its overflow to an
  infinity and its underflow to zero) and the sign of zero are outside the model. A
  number read from a text beyond the range of the doubles is an infinity.
\<close>

datatype 'a number = NaN | Fin 'a | Infinity | NegInfinity

fun isFinite :: "'a number \<Rightarrow> bool" where
  "isFinite (Fin r) = True"
| "isFinite v = False"

text \<open>
  The number value of a real: at \<open>2^1024 - 2^970\<close> and above it rounds to an infinity,
  at \<open>2^-1075\<close> and below (in magnitude) to zero.
\<close>

definition Number_value :: "rat \<Rightarrow> rat number" where
  "Number_value x =
     (if of_int (2 ^ 1024 - 2 ^ 970) \<le> x then Infinity
      else if x \<le> - of_int (2 ^ 1024 - 2 ^ 970) then NegInfinity
      else if \<bar>x\<bar> \<le> 1 / of_int (2 ^ 1075) then Fin 0
      else Fin x)"

definition Number_of_int :: "int \<Rightarrow> int number" where
  "Number_of_int n =
     (if 2 ^ 1024 - 2 ^ 970 \<le> n then Infinity
      else if n \<le> - (2 ^ 1024 - 2 ^ 970) then NegInfinity
      else Fin n)"

text \<open>The product \<^verbatim>\<open>x * y\<close>: \<open>0 * Infinity\<close> is \<open>NaN\<close>.\<close>

fun sign_of :: "rat number \<Rightarrow> int" where
  "sign_of (Fin r) = (if r < 0 then - 1 else if r = 0 then 0 else 1)"
| "sign_of Infinity = 1"
| "sign_of NegInfinity = - 1"
| "sign_of NaN = 0"

fun mul :: "rat number \<Rightarrow> rat number \<Rightarrow> rat number" where
  "mul NaN y = NaN"
| "mul x NaN = NaN"
| "mul (Fin a) (Fin b) = Fin (a * b)"
| "mul x y =
     (if sign_of x * sign_of y = 0 then NaN
      else if 0 < sign_of x * sign_of y then Infinity else NegInfinity)"

text \<open>The difference \<^verbatim>\<open>x - y\<close>: an infinity minus itself is \<open>NaN\<close>.\<close>

fun subtract :: "rat number \<Rightarrow> rat number \<Rightarrow> rat number" where
  "subtract NaN y = NaN"
| "subtract x NaN = NaN"
| "subtract (Fin a) (Fin b) = Fin (a - b)"
| "subtract Infinity Infinity = NaN"
| "subtract NegInfinity NegInfinity = NaN"
| "subtract Infinity y = Infinity"
| "subtract NegInfinity y = NegInfinity"
| "subtract x Infinity = NegInfinity"
| "subtract x NegInfinity = Infinity"

text \<open>\<^verbatim>\<open>v > 0\<close>\<close>

fun is_positive :: "rat number \<Rightarrow> bool" where
  "is_positive (Fin r) = (0 < r)"
| "is_positive Infinity = True"
| "is_positive v = False"

text \<open>\<^verbatim>\<open>Number.isFinite(v) && v > 0 ? v : dflt\<close>\<close>

definition positive_or :: "('a::linordered_idom) number \<Rightarrow> 'a \<Rightarrow> 'a" where
  "positive_or v dflt = (case v of Fin r \<Rightarrow> if isFinite v \<and> 0 < r then r else dflt | _ \<Rightarrow> dflt)"

text \<open>\<^verbatim>\<open>Number.isFinite(v) && v >= 0 ? v : dflt\<close>\<close>

definition nonnegative_or :: "('a::linordered_idom) number \<Rightarrow> 'a \<Rightarrow> 'a" where
  "nonnegative_or v dflt = (case v of Fin r \<Rightarrow> if isFinite v \<and> 0 \<le> r then r else dflt | _ \<Rightarrow> dflt)"

text \<open>
  \<^verbatim>\<open>v || dflt\<close>: \<open>NaN\<close> and \<open>0\<close> are falsy; every other number, an infinity
  included, is kept.
\<close>

fun truthy_or :: "rat number \<Rightarrow> rat \<Rightarrow> rat number" where
  "truthy_or NaN dflt = Fin dflt"
| "truthy_or (Fin r) dflt = (if r = 0 then Fin dflt else Fin r)"
| "truthy_or v dflt = v"

text \<open>\<^verbatim>\<open>v || 0\<close>\<close>

fun or_zero :: "rat number \<Rightarrow> rat number" where
  "or_zero NaN = Fin 0"
| "or_zero v = v"

subsection \<open>Parsing numbers\<close>

text \<open>
  A string is a list of characters below \<open>U+0100\<close>. The white space among them: tab,
  line feed, vertical tab, form feed, carriage return, space and no-break space.
\<close>

definition isWhiteSpace :: "char \<Rightarrow> bool" where
  "isWhiteSpace c = List.member [9, 10, 11, 12, 13, 32, 160 :: nat] (of_char c)"

definition isDigit :: "char \<Rightarrow> bool" where
  "isDigit c = List.member ''0123456789'' c"

definition digit_of :: "char \<Rightarrow> nat" where
  "digit_of c = of_char c - 48"

text \<open>The value of a string of decimal digits.\<close>

definition digits_value :: "string \<Rightarrow> nat" where
  "digits_value ds = foldl (\<lambda>n c. 10 * n + digit_of c) 0 ds"

definition startsWith :: "string \<Rightarrow> string \<Rightarrow> bool" where
  "startsWith s p = (take (length p) s = p)"

text \<open>
  \<^verbatim>\<open>Number.parseInt(string, 10)\<close>: leading white space is dropped, one sign is read,
  then the longest run of decimal digits; what follows the digits is ignored. Without a
  digit the result is \<open>NaN\<close>.
\<close>

definition parseInt10 :: "string \<Rightarrow> int number" where
  "parseInt10 inputString =
     (let S = dropWhile isWhiteSpace inputString;
          sign = (if S \<noteq> [] \<and> hd S = CHR ''-'' then - 1 else 1);
          S = (if S \<noteq> [] \<and> (hd S = CHR ''+'' \<or> hd S = CHR ''-'') then tl S else S);
          Z = takeWhile isDigit S
      in if Z = [] then NaN else Number_of_int (sign * int (digits_value Z)))"

text \<open>
  The exponent part at the head of a string, \<open>e\<close> or \<open>E\<close> with a signed run of digits;
  a string with no exponent part has exponent \<open>0\<close>.
\<close>

definition exponent_part :: "string \<Rightarrow> int" where
  "exponent_part r =
     (if r \<noteq> [] \<and> (hd r = CHR ''e'' \<or> hd r = CHR ''E'')
      then (let s = tl r;
                neg = (s \<noteq> [] \<and> hd s = CHR ''-'');
                s = (if s \<noteq> [] \<and> (hd s = CHR ''+'' \<or> hd s = CHR ''-'') then tl s else s);
                ds = takeWhile isDigit s
            in if ds = [] then 0
               else if neg then - int (digits_value ds) else int (digits_value ds))
      else 0)"

definition pow10 :: "int \<Rightarrow> rat" where
  "pow10 n = (if 0 \<le> n then 10 ^ nat n else 1 / 10 ^ nat (- n))"

text \<open>
  The value of the longest prefix that is an unsigned decimal literal other than
  \<open>Infinity\<close>: digits with an optional fraction, or a dot followed by digits, and an
  optional exponent part. \<open>None\<close> when no prefix is such a literal.
\<close>

definition decimal_prefix :: "string \<Rightarrow> rat option" where
  "decimal_prefix u =
     (let ip = takeWhile isDigit u;
          r1 = dropWhile isDigit u;
          dot = (r1 \<noteq> [] \<and> hd r1 = CHR ''.'');
          fp = (if dot then takeWhile isDigit (tl r1) else []);
          r2 = (if dot then dropWhile isDigit (tl r1) else r1)
      in if ip = [] \<and> fp = [] then None
         else Some ((of_nat (digits_value ip) + of_nat (digits_value fp) / 10 ^ length fp)
                * pow10 (exponent_part r2)))"

text \<open>
  \<^verbatim>\<open>Number.parseFloat(string)\<close>: leading white space is dropped, one sign is read,
  then \<open>Infinity\<close> or the longest decimal literal; what follows is ignored.
\<close>

definition parseFloat :: "string \<Rightarrow> rat number" where
  "parseFloat inputString =
     (let t = dropWhile isWhiteSpace inputString;
          neg = (t \<noteq> [] \<and> hd t = CHR ''-'');
          u = (if t \<noteq> [] \<and> (hd t = CHR ''+'' \<or> hd t = CHR ''-'') then tl t else t)
      in if startsWith u ''Infinity'' then (if neg then NegInfinity else Infinity)
         else (case decimal_prefix u of
                 None \<Rightarrow> NaN
               | Some mv \<Rightarrow> Number_value (if neg then - mv else mv)))"

subsection \<open>Tuning variables\<close>

text \<open>
  The tuning variables of \<^verbatim>\<open>process.env\<close>: the text of each variable, \<open>None\<close> when it is
  not set. \<open>OSGREP_RERANK_BLEND\<close> and the four multipliers are read with
  \<^verbatim>\<open>parseFloat\<close>, the others with \<^verbatim>\<open>parseInt\<close>.
\<close>

record env =
  OSGREP_PRE_K :: "string option"
  OSGREP_STAGE1_K :: "string option"
  OSGREP_STAGE2_K :: "string option"
  OSGREP_RERANK_TOP :: "string option"
  OSGREP_RERANK_BLEND :: "string option"
  OSGREP_MAX_PER_FILE :: "string option"
  OSGREP_ANCHOR_PENALTY :: "string option"
  OSGREP_CODE_BOOST :: "string option"
  OSGREP_TEST_PENALTY :: "string option"
  OSGREP_DOC_PENALTY :: "string option"

text \<open>\<^verbatim>\<open>process.env.X ?? ""\<close>\<close>

definition or_empty :: "string option \<Rightarrow> string" where
  "or_empty v = (case v of None \<Rightarrow> [] | Some s \<Rightarrow> s)"

definition PRE_RERANK_K :: "env \<Rightarrow> int \<Rightarrow> int" where
  "PRE_RERANK_K e finalLimit =
     positive_or (parseInt10 (or_empty (OSGREP_PRE_K e))) (max (finalLimit * 5) 500)"

definition STAGE1_K :: "env \<Rightarrow> int" where
  "STAGE1_K e = positive_or (parseInt10 (or_empty (OSGREP_STAGE1_K e))) 200"

definition STAGE2_K :: "env \<Rightarrow> int" where
  "STAGE2_K e = positive_or (parseInt10 (or_empty (OSGREP_STAGE2_K e))) 40"

definition RERANK_TOP :: "env \<Rightarrow> int" where
  "RERANK_TOP e = positive_or (parseInt10 (or_empty (OSGREP_RERANK_TOP e))) 20"

definition FUSED_WEIGHT :: "env \<Rightarrow> rat" where
  "FUSED_WEIGHT e = nonnegative_or (parseFloat (or_empty (OSGREP_RERANK_BLEND e))) (1 / 2)"

definition MAX_PER_FILE :: "env \<Rightarrow> int" where
  "MAX_PER_FILE e = positive_or (parseInt10 (or_empty (OSGREP_MAX_PER_FILE e))) 3"

definition anchorPenalty :: "env \<Rightarrow> rat number" where
  "anchorPenalty e = truthy_or (parseFloat (or_empty (OSGREP_ANCHOR_PENALTY e))) (99 / 100)"

definition boostFactor :: "env \<Rightarrow> rat number" where
  "boostFactor e = truthy_or (parseFloat (or_empty (OSGREP_CODE_BOOST e))) (105 / 100)"

definition testPenalty :: "env \<Rightarrow> rat number" where
  "testPenalty e = truthy_or (parseFloat (or_empty (OSGREP_TEST_PENALTY e))) (9 / 10)"

definition docPenalty :: "env \<Rightarrow> rat number" where
  "docPenalty e = truthy_or (parseFloat (or_empty (OSGREP_DOC_PENALTY e))) (85 / 100)"

text \<open>The environment in which no tuning variable is set.\<close>

definition env_unset :: env where
  "env_unset = \<lparr> OSGREP_PRE_K = None, OSGREP_STAGE1_K = None, OSGREP_STAGE2_K = None,
     OSGREP_RERANK_TOP = None, OSGREP_RERANK_BLEND = None, OSGREP_MAX_PER_FILE = None,
     OSGREP_ANCHOR_PENALTY = None, OSGREP_CODE_BOOST = None, OSGREP_TEST_PENALTY = None,
     OSGREP_DOC_PENALTY = None \<rparr>"

subsection \<open>Arrays and maps\<close>

text \<open>\<^verbatim>\<open>xs.slice(0, k)\<close> for an integer \<open>k\<close> that is not negative.\<close>

definition slice0 :: "int \<Rightarrow> 'a list \<Rightarrow> 'a list" where
  "slice0 k xs = take (nat k) xs"

text \<open>
  \<^verbatim>\<open>xs.sort((a, b) => b.score - a.score)\<close>: the sort of an array is stable, so
  the result is the stable sort by descending score.
\<close>

definition sort_desc :: "('a \<Rightarrow> rat) \<Rightarrow> 'a list \<Rightarrow> 'a list" where
  "sort_desc score xs = sort_key (\<lambda>x. - score x) xs"

lemma sort_desc_mset: "mset (sort_desc f xs) = mset xs"
  by (simp add: sort_desc_def)

lemma sort_desc_set: "set (sort_desc f xs) = set xs"
  by (simp add: sort_desc_def)

lemma sort_desc_length: "length (sort_desc f xs) = length xs"
  by (simp add: sort_desc_def)



lemma sorted_take_drop_le:
  assumes "sorted (map g xs)" and "y \<in> set (take n xs)" and "x \<in> set (drop n xs)"
  shows "g y \<le> g x"
proof -
  have "sorted (map g (take n xs) @ map g (drop n xs))"
    using assms(1) by (simp flip: map_append)
  then show ?thesis
    using assms(2,3) by (auto simp: sorted_append)
qed

text \<open>
  A \<^verbatim>\<open>Map\<close> keeps its keys in insertion order: \<^verbatim>\<open>set\<close> overwrites the value of a
  key in place or appends a new entry.
\<close>

fun map_set :: "'k \<Rightarrow> 'v \<Rightarrow> ('k \<times> 'v) list \<Rightarrow> ('k \<times> 'v) list" where
  "map_set k v [] = [(k, v)]"
| "map_set k v ((k', v') # m) =
     (if k = k' then (k, v) # m else (k', v') # map_set k v m)"

text \<open>\<^verbatim>\<open>m.get(key) || 0\<close> and \<^verbatim>\<open>m.get(key) ?? 0\<close> on a map of numbers.\<close>

definition get_or0 :: "('k \<times> 'v::zero) list \<Rightarrow> 'k \<Rightarrow> 'v" where
  "get_or0 m k = (case map_of m k of None \<Rightarrow> 0 | Some v \<Rightarrow> v)"

lemma map_of_map_set: "map_of (map_set k v m) = (map_of m)(k \<mapsto> v)"
  by (induction m) (auto simp: fun_eq_iff)

lemma get_or0_map_set: "get_or0 (map_set k v m) k' = (if k' = k then v else get_or0 m k')"
  by (simp add: get_or0_def map_of_map_set)

lemma map_fst_map_set:
  "map fst (map_set k v m) = (if k \<in> fst ` set m then map fst m else map fst m @ [k])"
  by (induction m) force+

lemma set_map_set: "set (map_set k v m) \<subseteq> insert (k, v) (set m)"
  by (induction m) (auto split: if_splits)


section \<open>Chunk records\<close>

text \<open>
  The fields of a \<^verbatim>\<open>VectorRecord\<close> the searcher reads. An absent string field
  is the empty string and an absent number is \<open>0\<close>, which is how the code reads them
  (\<^verbatim>\<open>record.path || ""\<close>, \<^verbatim>\<open>record.start_line || 0\<close>, \<^verbatim>\<open>doc.id || ...\<close>).
\<close>

record VectorRecord =
  doc_id :: string
  path :: string
  chunk_index :: nat
  content :: string
  display_text :: string
  context_prev :: string
  context_next :: string
  start_line :: int
  end_line :: int
  chunk_type :: string
  is_anchor :: bool
  hash :: string
  pooled_colbert_48d :: "rat list option"

text \<open>The decimal digit of a number below ten.\<close>

definition digit_char :: "nat \<Rightarrow> char" where
  "digit_char n = ''0123456789'' ! n"

text \<open>The decimal rendering of a non-negative integer in a template literal.\<close>

fun number_to_string :: "nat \<Rightarrow> string" where
  "number_to_string n =
     (if n < 10 then [digit_char n]
      else number_to_string (n div 10) @ [digit_char (n mod 10)])"

declare number_to_string.simps [simp del]

text \<open>\<^verbatim>\<open>doc.id || `${doc.path}:${doc.chunk_index}`\<close>\<close>

definition doc_key :: "VectorRecord \<Rightarrow> string" where
  "doc_key doc =
     (if doc_id doc \<noteq> [] then doc_id doc
      else path doc @ '':'' @ number_to_string (chunk_index doc))"

section \<open>Reciprocal Rank Fusion\<close>

definition RRF_K :: nat where
  "RRF_K = 60"

text \<open>
  The two \<^verbatim>\<open>forEach\<close> loops of \<^verbatim>\<open>Searcher.search\<close>, on the pair
  \<open>(candidateScores, docMap)\<close>. The dense loop always stores the document under its
  key; the full-text loop stores it only when the key is new.
\<close>

fun vector_pass ::
  "nat \<Rightarrow> VectorRecord list \<Rightarrow> (string \<times> rat) list \<times> (string \<times> VectorRecord) list
     \<Rightarrow> (string \<times> rat) list \<times> (string \<times> VectorRecord) list" where
  "vector_pass rank [] st = st"
| "vector_pass rank (doc # docs) (candidateScores, docMap) =
     (let key = doc_key doc;
          docMap' = map_set key doc docMap;
          score = 1 / of_nat (RRF_K + rank + 1)
      in vector_pass (Suc rank) docs
           (map_set key (get_or0 candidateScores key + score) candidateScores, docMap'))"

fun fts_pass ::
  "nat \<Rightarrow> VectorRecord list \<Rightarrow> (string \<times> rat) list \<times> (string \<times> VectorRecord) list
     \<Rightarrow> (string \<times> rat) list \<times> (string \<times> VectorRecord) list" where
  "fts_pass rank [] st = st"
| "fts_pass rank (doc # docs) (candidateScores, docMap) =
     (let key = doc_key doc;
          docMap' = (if map_of docMap key \<noteq> None then docMap else map_set key doc docMap);
          score = 1 / of_nat (RRF_K + rank + 1)
      in fts_pass (Suc rank) docs
           (map_set key (get_or0 candidateScores key + score) candidateScores, docMap'))"

definition rrf_state ::
  "VectorRecord list \<Rightarrow> VectorRecord list
     \<Rightarrow> (string \<times> rat) list \<times> (string \<times> VectorRecord) list" where
  "rrf_state vectorResults ftsResults =
     fts_pass 0 ftsResults (vector_pass 0 vectorResults ([], []))"

definition candidateScores :: "VectorRecord list \<Rightarrow> VectorRecord list \<Rightarrow> (string \<times> rat) list" where
  "candidateScores vectorResults ftsResults = fst (rrf_state vectorResults ftsResults)"

definition docMap :: "VectorRecord list \<Rightarrow> VectorRecord list \<Rightarrow> (string \<times> VectorRecord) list" where
  "docMap vectorResults ftsResults = snd (rrf_state vectorResults ftsResults)"

text \<open>
  \<^verbatim>\<open>Array.from(candidateScores.entries()).sort(...).map(([key]) => docMap.get(key)).filter(Boolean)\<close>
\<close>

definition fused :: "VectorRecord list \<Rightarrow> VectorRecord list \<Rightarrow> VectorRecord list" where
  "fused vectorResults ftsResults =
     List.map_filter (\<lambda>(key, s). map_of (docMap vectorResults ftsResults) key)
       (sort_desc snd (candidateScores vectorResults ftsResults))"

text \<open>The fused score the later stages read back: \<^verbatim>\<open>candidateScores.get(key) ?? 0\<close>.\<close>

definition fusedScore :: "VectorRecord list \<Rightarrow> VectorRecord list \<Rightarrow> string \<Rightarrow> rat" where
  "fusedScore vectorResults ftsResults key = get_or0 (candidateScores vectorResults ftsResults) key"


text \<open>A document for examples: only the fields that drive ranking vary.\<close>

definition mk_doc :: "string \<Rightarrow> string \<Rightarrow> nat \<Rightarrow> VectorRecord" where
  "mk_doc i p n = \<lparr> doc_id = i, path = p, chunk_index = n, content = ''c'',
     display_text = [], context_prev = [], context_next = [], start_line = 1, end_line = 1,
     chunk_type = ''block'', is_anchor = False, hash = ''h'', pooled_colbert_48d = None \<rparr>"

subsection \<open>Fused scores\<close>







subsection \<open>Candidate keys\<close>












subsection \<open>The fused list\<close>

text \<open>
  The two maps hold the same keys in the same order, every stored document has the key
  it is stored under, and every fused score is positive.
\<close>

definition rrf_inv :: "(string \<times> rat) list \<times> (string \<times> VectorRecord) list \<Rightarrow> bool" where
  "rrf_inv st =
     (map fst (snd st) = map fst (fst st) \<and> distinct (map fst (fst st))
      \<and> (\<forall>(k, d) \<in> set (snd st). doc_key d = k)
      \<and> (\<forall>(k, s) \<in> set (fst st). 0 < s))"

lemma get_or0_nonneg:
  "\<forall>(k, s) \<in> set cs. (0::rat) < s \<Longrightarrow> 0 \<le> get_or0 cs k"
  by (auto simp: get_or0_def split: option.splits dest!: map_of_SomeD)

lemma rrf_inv_step:
  assumes "rrf_inv (cs, dm)" and "dm' = map_set (doc_key doc) doc dm \<or> (dm' = dm \<and> map_of dm (doc_key doc) \<noteq> None)"
  shows "rrf_inv (map_set (doc_key doc) (get_or0 cs (doc_key doc) + 1 / of_nat (RRF_K + rank + 1)) cs, dm')"
proof -
  let ?k = "doc_key doc"
  let ?v = "get_or0 cs ?k + 1 / of_nat (RRF_K + rank + 1)"
  from assms(1) have keys: "map fst dm = map fst cs" and dist: "distinct (map fst cs)"
    and docs: "\<forall>(k, d) \<in> set dm. doc_key d = k" and pos: "\<forall>(k, s) \<in> set cs. 0 < s"
    by (auto simp: rrf_inv_def)
  have same: "fst ` set dm = fst ` set cs"
    using keys by (metis set_map)
  have "0 < ?v"
    using get_or0_nonneg [OF pos, of ?k] by (simp add: add_nonneg_pos)
  then have pos': "\<forall>(k, s) \<in> set (map_set ?k ?v cs). 0 < s"
    using pos set_map_set [of ?k ?v cs] by auto
  have dist': "distinct (map fst (map_set ?k ?v cs))"
    using dist by (auto simp: map_fst_map_set)
  from assms(2) show ?thesis
  proof
    assume dm': "dm' = map_set ?k doc dm"
    have "map fst dm' = map fst (map_set ?k ?v cs)"
      using keys same by (simp add: dm' map_fst_map_set)
    moreover have "\<forall>(k, d) \<in> set dm'. doc_key d = k"
      using docs set_map_set [of ?k doc dm] by (auto simp: dm')
    ultimately show ?thesis
      using dist' pos' by (simp add: rrf_inv_def)
  next
    assume "dm' = dm \<and> map_of dm ?k \<noteq> None"
    then have dm': "dm' = dm" and "?k \<in> fst ` set dm"
      by (auto simp: map_of_eq_None_iff)
    then have "map fst dm' = map fst (map_set ?k ?v cs)"
      using keys same by (simp add: map_fst_map_set)
    then show ?thesis
      using dist' pos' docs dm' by (simp add: rrf_inv_def)
  qed
qed

lemma vector_pass_inv: "rrf_inv st \<Longrightarrow> rrf_inv (vector_pass n docs st)"
proof (induction docs arbitrary: n st)
  case Nil
  then show ?case by simp
next
  case (Cons doc docs)
  obtain cs dm where st: "st = (cs, dm)" by (cases st)
  have "rrf_inv (map_set (doc_key doc) (get_or0 cs (doc_key doc) + 1 / of_nat (RRF_K + n + 1)) cs,
      map_set (doc_key doc) doc dm)"
    using Cons.prems [unfolded st] by (rule rrf_inv_step) simp
  from Cons.IH [OF this] show ?case
    by (simp only: st vector_pass.simps Let_def)
qed

lemma fts_pass_inv: "rrf_inv st \<Longrightarrow> rrf_inv (fts_pass n docs st)"
proof (induction docs arbitrary: n st)
  case Nil
  then show ?case by simp
next
  case (Cons doc docs)
  obtain cs dm where st: "st = (cs, dm)" by (cases st)
  let ?dm' = "if map_of dm (doc_key doc) \<noteq> None then dm else map_set (doc_key doc) doc dm"
  have "rrf_inv (map_set (doc_key doc) (get_or0 cs (doc_key doc) + 1 / of_nat (RRF_K + n + 1)) cs, ?dm')"
    using Cons.prems [unfolded st] by (rule rrf_inv_step) simp
  from Cons.IH [OF this] show ?case
    by (simp only: st fts_pass.simps Let_def)
qed

lemma rrf_state_inv: "rrf_inv (rrf_state dense fts)"
proof -
  have "rrf_inv ([], [])" by (simp add: rrf_inv_def)
  then show ?thesis
    unfolding rrf_state_def by (intro fts_pass_inv vector_pass_inv)
qed

lemma map_filter_all_Some:
  "\<forall>x \<in> set xs. \<exists>d. f x = Some d \<and> g d = h x \<Longrightarrow> map g (List.map_filter f xs) = map h xs"
  by (induction xs) (auto simp: map_filter_simps)

lemma fused_keys_scores:
  "map (\<lambda>d. (doc_key d, fusedScore dense fts (doc_key d))) (fused dense fts)
   = sort_desc snd (candidateScores dense fts)"
proof -
  obtain cs dm where st: "rrf_state dense fts = (cs, dm)" by (cases "rrf_state dense fts")
  have inv: "rrf_inv (cs, dm)"
    using rrf_state_inv [of dense fts] by (simp add: st)
  then have keys: "map fst dm = map fst cs" and dist: "distinct (map fst cs)"
    and docs: "\<forall>(k, d) \<in> set dm. doc_key d = k"
    by (auto simp: rrf_inv_def)
  have same: "fst ` set dm = fst ` set cs"
    using keys by (metis set_map)
  have "\<exists>d. map_of dm k = Some d \<and> (doc_key d, get_or0 cs (doc_key d)) = (k, s)"
    if "(k, s) \<in> set cs" for k s
  proof -
    from that same have "k \<in> fst ` set dm" by force
    then obtain d where d: "map_of dm k = Some d"
      by (metis map_of_eq_None_iff not_Some_eq)
    then have "doc_key d = k"
      using docs by (auto dest: map_of_SomeD)
    moreover have "map_of cs k = Some s"
      using that dist by simp
    ultimately show ?thesis
      using d by (simp add: get_or0_def)
  qed
  then have "\<forall>x \<in> set (sort_desc snd cs).
      \<exists>d. (case x of (key, s) \<Rightarrow> map_of dm key) = Some d \<and> (doc_key d, get_or0 cs (doc_key d)) = id x"
    by (auto simp: sort_desc_set)
  from map_filter_all_Some [OF this] show ?thesis
    by (simp add: fused_def docMap_def candidateScores_def fusedScore_def st)
qed



lemma fused_distinct_keys: "distinct (map doc_key (fused dense fts))"
proof -
  have "map doc_key (fused dense fts) = map fst (sort_desc snd (candidateScores dense fts))"
    by (simp add: comp_def flip: fused_keys_scores)
  moreover have "distinct (map fst (candidateScores dense fts))"
    using rrf_state_inv [of dense fts] by (simp add: rrf_inv_def candidateScores_def)
  then have "distinct (map fst (sort_desc snd (candidateScores dense fts)))"
    by (metis distinct_map distinct_sort sort_desc_def set_sort)
  ultimately show ?thesis by simp
qed

section \<open>Tuning variables and their defaults\<close>

text \<open>
  The three ways in which the code rejects the number read from a variable: it is not
  finite or not positive (\<^verbatim>\<open>Number.isFinite(v) && v > 0\<close>), it is not finite or negative
  (\<^verbatim>\<open>Number.isFinite(v) && v >= 0\<close>), it is \<open>NaN\<close> or zero (\<^verbatim>\<open>v || dflt\<close>).
\<close>

fun invalid_or_nonpositive :: "('a::linordered_idom) number \<Rightarrow> bool" where
  "invalid_or_nonpositive (Fin r) = (r \<le> 0)"
| "invalid_or_nonpositive v = True"

fun invalid_or_negative :: "('a::linordered_idom) number \<Rightarrow> bool" where
  "invalid_or_negative (Fin r) = (r < 0)"
| "invalid_or_negative v = True"

fun invalid_or_zero :: "rat number \<Rightarrow> bool" where
  "invalid_or_zero NaN = True"
| "invalid_or_zero (Fin r) = (r = 0)"
| "invalid_or_zero v = False"

lemma positive_or_default: "invalid_or_nonpositive v \<Longrightarrow> positive_or v d = d"
  by (cases v) (auto simp: positive_or_def)

lemma positive_or_value: "\<not> invalid_or_nonpositive v \<Longrightarrow> Fin (positive_or v d) = v"
  by (cases v) (auto simp: positive_or_def)

lemma nonnegative_or_default: "invalid_or_negative v \<Longrightarrow> nonnegative_or v d = d"
  by (cases v) (auto simp: nonnegative_or_def)

lemma nonnegative_or_value: "\<not> invalid_or_negative v \<Longrightarrow> Fin (nonnegative_or v d) = v"
  by (cases v) (auto simp: nonnegative_or_def)

lemma truthy_or_default: "invalid_or_zero v \<Longrightarrow> truthy_or v d = Fin d"
  by (cases v) auto

lemma truthy_or_value: "\<not> invalid_or_zero v \<Longrightarrow> truthy_or v d = v"
  by (cases v) auto

lemma positive_or_pos: "0 < d \<Longrightarrow> 0 < positive_or v d"
  by (cases v) (auto simp: positive_or_def)



lemma MAX_PER_FILE_pos: "0 < MAX_PER_FILE e"
  by (simp add: MAX_PER_FILE_def positive_or_pos)

lemma STAGE1_K_pos: "0 < STAGE1_K e"
  by (simp add: STAGE1_K_def positive_or_pos)

lemma STAGE2_K_pos: "0 < STAGE2_K e"
  by (simp add: STAGE2_K_def positive_or_pos)

lemma RERANK_TOP_pos: "0 < RERANK_TOP e"
  by (simp add: RERANK_TOP_def positive_or_pos)

subsection \<open>What the parsers read\<close>

text \<open>
  \<^verbatim>\<open>parseInt\<close> reads the leading integer of a text and ignores the rest, so a fraction or
  an exponent is cut off; \<^verbatim>\<open>parseFloat\<close> reads \<open>Infinity\<close>, and a literal beyond the
  range of the doubles is an infinity as well.
\<close>

lemmas parse_simps =
  parseInt10_def parseFloat_def decimal_prefix_def exponent_part_def pow10_def Number_value_def
  Number_of_int_def isDigit_def isWhiteSpace_def digits_value_def digit_of_def startsWith_def
  or_empty_def Let_def List.member_iff

lemma parseInt10_examples:
  "parseInt10 [] = NaN \<and> parseInt10 ''abc'' = NaN \<and> parseInt10 ''12'' = Fin 12
   \<and> parseInt10 ''12.9'' = Fin 12 \<and> parseInt10 ''1e3'' = Fin 1 \<and> parseInt10 ''12abc'' = Fin 12
   \<and> parseInt10 '' 42'' = Fin 42 \<and> parseInt10 ''+7'' = Fin 7 \<and> parseInt10 ''-5'' = Fin (- 5)
   \<and> parseInt10 ''0'' = Fin 0 \<and> parseInt10 ''Infinity'' = NaN \<and> parseInt10 ''0x10'' = Fin 0"
  by (simp add: parse_simps)

lemma parseFloat_examples:
  "parseFloat [] = NaN \<and> parseFloat ''abc'' = NaN \<and> parseFloat ''0.5'' = Fin (1 / 2)
   \<and> parseFloat ''.5x'' = Fin (1 / 2) \<and> parseFloat ''-2'' = Fin (- 2) \<and> parseFloat ''1e3'' = Fin 1000
   \<and> parseFloat ''1.e2'' = Fin 100 \<and> parseFloat ''1e'' = Fin 1 \<and> parseFloat ''.'' = NaN
   \<and> parseFloat ''0'' = Fin 0 \<and> parseFloat ''-0'' = Fin 0 \<and> parseFloat ''1e-400'' = Fin 0
   \<and> parseFloat ''Infinity'' = Infinity \<and> parseFloat ''-Infinity'' = NegInfinity
   \<and> parseFloat ''1e400'' = Infinity \<and> parseFloat ''infinity'' = NaN"
  by (simp add: parse_simps)

text \<open>A text with no digit after its white space and sign is not a number.\<close>

lemma parseInt10_NaN:
  "parseInt10 s = NaN \<longleftrightarrow>
     (let S = dropWhile isWhiteSpace s
      in takeWhile isDigit (if S \<noteq> [] \<and> (hd S = CHR ''+'' \<or> hd S = CHR ''-'') then tl S else S) = [])"
  by (simp add: parseInt10_def Let_def Number_of_int_def)

text \<open>
  A run of digits, after white space and before a character that is not a digit, is
  read as its value, whatever follows.
\<close>

lemma parseInt10_digits:
  assumes "\<forall>c \<in> set ws. isWhiteSpace c" and "ds \<noteq> []" and "\<forall>c \<in> set ds. isDigit c"
    and "rest = [] \<or> \<not> isDigit (hd rest)"
  shows "parseInt10 (ws @ ds @ rest) = Number_of_int (int (digits_value ds))"
proof -
  obtain d ds' where ds: "ds = d # ds'"
    using assms(2) by (cases ds) auto
  have d: "isDigit d"
    using assms(3) by (simp add: ds)
  then have nw: "\<not> isWhiteSpace d" and ns: "d \<noteq> CHR ''+''" "d \<noteq> CHR ''-''"
    by (auto simp: isDigit_def isWhiteSpace_def List.member_iff)
  have drop: "dropWhile isWhiteSpace (ws @ ds @ rest) = ds @ rest"
    using assms(1) nw by (simp add: dropWhile_append2 ds)
  have tw: "takeWhile isDigit (ds @ rest) = ds"
    using assms(3,4) by (cases rest) (simp_all add: takeWhile_append2)
  have hd: "hd (ds @ rest) = d" and ne: "ds @ rest \<noteq> []"
    by (simp_all add: ds)
  show ?thesis
    unfolding parseInt10_def drop Let_def
    by (simp add: tw hd ne ns assms(2))
qed

text \<open>
  Claim C9, as stated, fails: \<open>OSGREP_RERANK_BLEND = 0\<close> is a non-positive value, and
  the search uses it (the guard is \<^verbatim>\<open>envBlend >= 0\<close>) instead of the default \<open>0.5\<close>;
  \<open>OSGREP_TEST_PENALTY = -2\<close> is a non-positive value, and the search uses it (only
  \<open>NaN\<close> and \<open>0\<close> are replaced) instead of the default \<open>0.9\<close>.
\<close>

theorem rerank_blend_zero_is_used:
  "FUSED_WEIGHT (env_unset \<lparr> OSGREP_RERANK_BLEND := Some ''0'' \<rparr>) = 0
   \<and> FUSED_WEIGHT env_unset = 1 / 2
   \<and> testPenalty (env_unset \<lparr> OSGREP_TEST_PENALTY := Some ''-2'' \<rparr>) = Fin (- 2)
   \<and> testPenalty env_unset = Fin (9 / 10)"
  by (simp add: FUSED_WEIGHT_def testPenalty_def env_unset_def nonnegative_or_def parse_simps)

text \<open>
  Claim C9, amended. Each variable is read by \<^verbatim>\<open>parseInt(text, 10)\<close> or
  \<^verbatim>\<open>parseFloat(text)\<close>, the text being empty when the variable is not set. For the five
  counts the default is used (\<open>PRE_K\<close>: \<open>max (5 * limit) 500\<close>, \<open>STAGE1_K\<close>: 200,
  \<open>STAGE2_K\<close>: 40, \<open>RERANK_TOP\<close>: 20, \<open>MAX_PER_FILE\<close>: 3) when the number read is
  \<open>NaN\<close>, infinite or not positive, and the number read is used otherwise. For the blend
  the default \<open>0.5\<close> is used when the number read is \<open>NaN\<close>, infinite or negative, and
  the number read is used otherwise, \<open>0\<close> included. For the four multipliers the default
  is used (anchor 0.99, code boost 1.05, test 0.9, doc 0.85) when the number read is
  \<open>NaN\<close> or zero, and the number read is used otherwise, negative numbers and the
  infinities included.
\<close>

theorem tuning_defaults:
  "(invalid_or_nonpositive (parseInt10 (or_empty v1)) \<longrightarrow>
      PRE_RERANK_K (e \<lparr> OSGREP_PRE_K := v1 \<rparr>) limit = max (limit * 5) 500
      \<and> STAGE1_K (e \<lparr> OSGREP_STAGE1_K := v1 \<rparr>) = 200
      \<and> STAGE2_K (e \<lparr> OSGREP_STAGE2_K := v1 \<rparr>) = 40
      \<and> RERANK_TOP (e \<lparr> OSGREP_RERANK_TOP := v1 \<rparr>) = 20
      \<and> MAX_PER_FILE (e \<lparr> OSGREP_MAX_PER_FILE := v1 \<rparr>) = 3)
   \<and> (\<not> invalid_or_nonpositive (parseInt10 (or_empty v1)) \<longrightarrow>
      Fin (PRE_RERANK_K (e \<lparr> OSGREP_PRE_K := v1 \<rparr>) limit) = parseInt10 (or_empty v1)
      \<and> Fin (STAGE1_K (e \<lparr> OSGREP_STAGE1_K := v1 \<rparr>)) = parseInt10 (or_empty v1)
      \<and> Fin (STAGE2_K (e \<lparr> OSGREP_STAGE2_K := v1 \<rparr>)) = parseInt10 (or_empty v1)
      \<and> Fin (RERANK_TOP (e \<lparr> OSGREP_RERANK_TOP := v1 \<rparr>)) = parseInt10 (or_empty v1)
      \<and> Fin (MAX_PER_FILE (e \<lparr> OSGREP_MAX_PER_FILE := v1 \<rparr>)) = parseInt10 (or_empty v1))
   \<and> (invalid_or_negative (parseFloat (or_empty v2)) \<longrightarrow>
      FUSED_WEIGHT (e \<lparr> OSGREP_RERANK_BLEND := v2 \<rparr>) = 1 / 2)
   \<and> (\<not> invalid_or_negative (parseFloat (or_empty v2)) \<longrightarrow>
      Fin (FUSED_WEIGHT (e \<lparr> OSGREP_RERANK_BLEND := v2 \<rparr>)) = parseFloat (or_empty v2))
   \<and> (invalid_or_zero (parseFloat (or_empty v3)) \<longrightarrow>
      anchorPenalty (e \<lparr> OSGREP_ANCHOR_PENALTY := v3 \<rparr>) = Fin (99 / 100)
      \<and> boostFactor (e \<lparr> OSGREP_CODE_BOOST := v3 \<rparr>) = Fin (105 / 100)
      \<and> testPenalty (e \<lparr> OSGREP_TEST_PENALTY := v3 \<rparr>) = Fin (9 / 10)
      \<and> docPenalty (e \<lparr> OSGREP_DOC_PENALTY := v3 \<rparr>) = Fin (85 / 100))
   \<and> (\<not> invalid_or_zero (parseFloat (or_empty v3)) \<longrightarrow>
      anchorPenalty (e \<lparr> OSGREP_ANCHOR_PENALTY := v3 \<rparr>) = parseFloat (or_empty v3)
      \<and> boostFactor (e \<lparr> OSGREP_CODE_BOOST := v3 \<rparr>) = parseFloat (or_empty v3)
      \<and> testPenalty (e \<lparr> OSGREP_TEST_PENALTY := v3 \<rparr>) = parseFloat (or_empty v3)
      \<and> docPenalty (e \<lparr> OSGREP_DOC_PENALTY := v3 \<rparr>) = parseFloat (or_empty v3))
   \<and> parseInt10 (or_empty None) = NaN \<and> parseFloat (or_empty None) = NaN
   \<and> parseInt10 ''12.9'' = Fin 12 \<and> parseInt10 ''1e3'' = Fin 1 \<and> parseInt10 ''abc'' = NaN
   \<and> parseFloat ''Infinity'' = Infinity \<and> parseFloat ''1e400'' = Infinity
   \<and> parseFloat ''abc'' = NaN"
proof -
  have ex: "parseInt10 (or_empty None) = NaN \<and> parseFloat (or_empty None) = NaN
      \<and> parseInt10 ''12.9'' = Fin 12 \<and> parseInt10 ''1e3'' = Fin 1 \<and> parseInt10 ''abc'' = NaN
      \<and> parseFloat ''Infinity'' = Infinity \<and> parseFloat ''1e400'' = Infinity
      \<and> parseFloat ''abc'' = NaN"
    by (simp add: parse_simps)
  show ?thesis
    by (simp add: PRE_RERANK_K_def STAGE1_K_def STAGE2_K_def RERANK_TOP_def MAX_PER_FILE_def
      FUSED_WEIGHT_def anchorPenalty_def boostFactor_def testPenalty_def docPenalty_def
      positive_or_default nonnegative_or_default truthy_or_default
      positive_or_value nonnegative_or_value truthy_or_value ex)
qed

theorem tuning_defaults_witness:
  "invalid_or_nonpositive (parseInt10 (or_empty (Some ''-3'')))
   \<and> PRE_RERANK_K (env_unset \<lparr> OSGREP_PRE_K := Some ''-3'' \<rparr>) 10 = 500
   \<and> MAX_PER_FILE (env_unset \<lparr> OSGREP_MAX_PER_FILE := Some ''-3'' \<rparr>) = 3
   \<and> invalid_or_nonpositive (parseInt10 (or_empty (Some ''many'')))
   \<and> STAGE1_K (env_unset \<lparr> OSGREP_STAGE1_K := Some ''many'' \<rparr>) = 200
   \<and> \<not> invalid_or_nonpositive (parseInt10 (or_empty (Some ''12.9'')))
   \<and> STAGE2_K (env_unset \<lparr> OSGREP_STAGE2_K := Some ''12.9'' \<rparr>) = 12
   \<and> invalid_or_negative (parseFloat (or_empty (Some ''-0.25'')))
   \<and> FUSED_WEIGHT (env_unset \<lparr> OSGREP_RERANK_BLEND := Some ''-0.25'' \<rparr>) = 1 / 2
   \<and> invalid_or_negative (parseFloat (or_empty (Some ''Infinity'')))
   \<and> FUSED_WEIGHT (env_unset \<lparr> OSGREP_RERANK_BLEND := Some ''Infinity'' \<rparr>) = 1 / 2
   \<and> invalid_or_zero (parseFloat (or_empty (Some ''0'')))
   \<and> testPenalty (env_unset \<lparr> OSGREP_TEST_PENALTY := Some ''0'' \<rparr>) = Fin (9 / 10)
   \<and> \<not> invalid_or_zero (parseFloat (or_empty (Some ''Infinity'')))
   \<and> docPenalty (env_unset \<lparr> OSGREP_DOC_PENALTY := Some ''Infinity'' \<rparr>) = Infinity"
proof -
  have p: "parseInt10 (or_empty (Some ''-3'')) = Fin (- 3)"
    "parseInt10 (or_empty (Some ''many'')) = NaN"
    "parseInt10 (or_empty (Some ''12.9'')) = Fin 12"
    "parseFloat (or_empty (Some ''-0.25'')) = Fin (- (1 / 4))"
    "parseFloat (or_empty (Some ''Infinity'')) = Infinity"
    "parseFloat (or_empty (Some ''0'')) = Fin 0"
    by (simp_all add: parse_simps)
  note a = tuning_defaults [of "Some ''-3''" env_unset 10 "Some ''-0.25''" "Some ''0''"]
  note b = tuning_defaults [of "Some ''many''" env_unset 10 "Some ''Infinity''" "Some ''Infinity''"]
  note c = tuning_defaults [of "Some ''12.9''" env_unset 10 "Some ''Infinity''" "Some ''Infinity''"]
  from a have 1: "PRE_RERANK_K (env_unset \<lparr> OSGREP_PRE_K := Some ''-3'' \<rparr>) 10 = 500"
    and 2: "MAX_PER_FILE (env_unset \<lparr> OSGREP_MAX_PER_FILE := Some ''-3'' \<rparr>) = 3"
    and 3: "FUSED_WEIGHT (env_unset \<lparr> OSGREP_RERANK_BLEND := Some ''-0.25'' \<rparr>) = 1 / 2"
    and 4: "testPenalty (env_unset \<lparr> OSGREP_TEST_PENALTY := Some ''0'' \<rparr>) = Fin (9 / 10)"
    by (simp_all add: p)
  from b have 5: "STAGE1_K (env_unset \<lparr> OSGREP_STAGE1_K := Some ''many'' \<rparr>) = 200"
    and 6: "FUSED_WEIGHT (env_unset \<lparr> OSGREP_RERANK_BLEND := Some ''Infinity'' \<rparr>) = 1 / 2"
    and 7: "docPenalty (env_unset \<lparr> OSGREP_DOC_PENALTY := Some ''Infinity'' \<rparr>) = Infinity"
    by (simp_all add: p)
  from c have 8: "STAGE2_K (env_unset \<lparr> OSGREP_STAGE2_K := Some ''12.9'' \<rparr>) = 12"
    by (simp add: p)
  show ?thesis
    using 1 2 3 4 5 6 7 8 by (simp add: p)
qed

section \<open>Score shaping\<close>

subsection \<open>String helpers\<close>

definition lower_char :: "char \<Rightarrow> char" where
  "lower_char c =
     (case map_of (zip ''ABCDEFGHIJKLMNOPQRSTUVWXYZ'' ''abcdefghijklmnopqrstuvwxyz'') c of
        None \<Rightarrow> c | Some l \<Rightarrow> l)"

text \<open>\<^verbatim>\<open>toLowerCase\<close> on the ASCII letters (a \<open>char\<close> is a byte).\<close>

definition toLowerCase :: "string \<Rightarrow> string" where
  "toLowerCase s = map lower_char s"

definition endsWith :: "string \<Rightarrow> string \<Rightarrow> bool" where
  "endsWith s suf = (length suf \<le> length s \<and> drop (length s - length suf) s = suf)"

fun includesStr :: "string \<Rightarrow> string \<Rightarrow> bool" where
  "includesStr [] sub = (sub = [])"
| "includesStr (c # s) sub = (startsWith (c # s) sub \<or> includesStr s sub)"

subsection \<open>Test and documentation paths\<close>

text \<open>
  \<^verbatim>\<open>/(^|\/)(__tests__|tests?|specs?)(\/|$)/\<close>: at the start of the path or after a
  slash stands one of the five names, followed by a slash or the end of the path.
\<close>

definition test_dir_names :: "string list" where
  "test_dir_names = [''__tests__'', ''tests'', ''test'', ''specs'', ''spec'']"

definition test_dir_here :: "string \<Rightarrow> bool" where
  "test_dir_here s =
     list_ex (\<lambda>w. startsWith s w \<and> (drop (length w) s = [] \<or> startsWith (drop (length w) s) ''/''))
       test_dir_names"

fun test_dir_match :: "bool \<Rightarrow> string \<Rightarrow> bool" where
  "test_dir_match at_boundary [] = False"
| "test_dir_match at_boundary (c # s) =
     ((at_boundary \<and> test_dir_here (c # s)) \<or> test_dir_match (c = CHR ''/'') s)"

text \<open>\<^verbatim>\<open>/\.(test|spec)\.[cm]?[jt]sx?$/\<close>: the path ends with one of 24 suffixes.\<close>

definition test_file_suffixes :: "string list" where
  "test_file_suffixes =
     [''.'' @ w @ ''.'' @ m @ l @ ''s'' @ x.
        w \<leftarrow> [''test'', ''spec''], m \<leftarrow> ['''', ''c'', ''m''], l \<leftarrow> [''j'', ''t''], x \<leftarrow> ['''', ''x'']]"

definition isTestPath :: "string \<Rightarrow> bool" where
  "isTestPath pathStr =
     (test_dir_match True pathStr \<or> list_ex (endsWith pathStr) test_file_suffixes)"

definition isDocPath :: "string \<Rightarrow> bool" where
  "isDocPath pathStr =
     (endsWith pathStr ''.md'' \<or> endsWith pathStr ''.mdx'' \<or> endsWith pathStr ''.txt''
      \<or> endsWith pathStr ''.json'' \<or> endsWith pathStr ''.lock'' \<or> includesStr pathStr ''/docs/'')"

subsection \<open>Structural boost\<close>

definition boosted_chunk_types :: "string list" where
  "boosted_chunk_types = [''function'', ''class'', ''method'', ''interface'', ''type_alias'']"

definition applyStructureBoost :: "env \<Rightarrow> VectorRecord \<Rightarrow> rat number \<Rightarrow> rat number" where
  "applyStructureBoost e rec score =
     (let adjusted = score;
          adjusted =
            (if is_anchor rec then mul adjusted (anchorPenalty e)
             else if List.member boosted_chunk_types (chunk_type rec) then mul adjusted (boostFactor e)
             else adjusted);
          pathStr = toLowerCase (path rec);
          adjusted = (if isTestPath pathStr then mul adjusted (testPenalty e) else adjusted);
          adjusted = (if isDocPath pathStr then mul adjusted (docPenalty e) else adjusted)
      in adjusted)"


section \<open>The two-stage reranker\<close>

text \<open>
  The loop \<^verbatim>\<open>for (let i = 0; i < queryPooled.length; i++) dot += queryPooled[i] * (docVec[i] || 0)\<close>,
  from index \<open>i\<close> with the sum \<open>dot\<close> so far. Beyond the end of \<open>docVec\<close> the element is
  \<^verbatim>\<open>undefined\<close> and counts as \<open>0\<close>.
\<close>

function dot_loop :: "rat list \<Rightarrow> rat list \<Rightarrow> nat \<Rightarrow> rat \<Rightarrow> rat" where
  "dot_loop queryPooled docVec i dot =
     (if i < length queryPooled
      then dot_loop queryPooled docVec (i + 1)
             (dot + queryPooled ! i * (if i < length docVec then docVec ! i else 0))
      else dot)"
  by pat_completeness auto

termination
  by (relation "measure (\<lambda>(queryPooled, docVec, i, dot). length queryPooled - i)") auto

declare dot_loop.simps [simp del]

text \<open>The pooled-cosine score of a candidate: \<open>-1\<close> without a pooled vector.\<close>

definition cosineScore :: "rat list \<Rightarrow> VectorRecord \<Rightarrow> rat" where
  "cosineScore queryPooled doc =
     (case pooled_colbert_48d doc of
        None \<Rightarrow> - 1
      | Some docVec \<Rightarrow> dot_loop queryPooled docVec 0 0)"

definition stage2Candidates ::
  "env \<Rightarrow> rat list option \<Rightarrow> VectorRecord list \<Rightarrow> VectorRecord list" where
  "stage2Candidates e queryPooled topCandidates =
     (case queryPooled of
        None \<Rightarrow> topCandidates
      | Some q \<Rightarrow>
          if STAGE2_K e < int (length topCandidates)
          then map fst (slice0 (STAGE2_K e)
                 (sort_desc snd (map (\<lambda>doc. (doc, cosineScore q doc)) topCandidates)))
          else topCandidates)"

text \<open>
  The scores used when \<^verbatim>\<open>rerank\<close> is disabled:
  \<^verbatim>\<open>fusedScore || 1 / (idx + 1)\<close> for the candidate at index \<open>idx\<close>.
\<close>

definition fallbackScores :: "(string \<times> rat) list \<Rightarrow> VectorRecord list \<Rightarrow> rat list" where
  "fallbackScores cs rerankCandidates =
     map (\<lambda>(idx, doc).
            let fusedScore = get_or0 cs (doc_key doc)
            in if fusedScore \<noteq> 0 then fusedScore else 1 / of_nat (idx + 1))
       (enumerate 0 rerankCandidates)"

type_synonym ScoredItem = "VectorRecord \<times> rat number"

text \<open>
  \<^verbatim>\<open>scores?.[idx] ?? 0\<close>, blended with the fused score and boosted. The scores of the
  reranker and the fused scores are finite, and so is the blend.
\<close>

definition scored :: "env \<Rightarrow> (string \<times> rat) list \<Rightarrow> rat list \<Rightarrow> VectorRecord list \<Rightarrow> ScoredItem list" where
  "scored e cs scores rerankCandidates =
     map (\<lambda>(idx, doc).
            let base = (if idx < length scores then scores ! idx else 0);
                fusedScore = get_or0 cs (doc_key doc);
                blended = base + FUSED_WEIGHT e * fusedScore;
                boosted = applyStructureBoost e doc (Fin blended)
            in (doc, boosted))
       (enumerate 0 rerankCandidates)"

text \<open>
  \<^verbatim>\<open>scored.sort((a, b) => b.score - a.score)\<close>. The sort of an array is stable: an
  item changes place with an item behind it only when the comparator is positive for
  the pair. A comparator value of \<open>NaN\<close> counts as \<open>0\<close>, so two equal infinities
  compare as equal. (With a \<open>NaN\<close> among the scores the comparator is not consistent,
  and the order is the one an insertion sort gives.)
\<close>

fun insert_by_score :: "ScoredItem \<Rightarrow> ScoredItem list \<Rightarrow> ScoredItem list" where
  "insert_by_score a [] = [a]"
| "insert_by_score a (b # bs) =
     (if is_positive (subtract (snd b) (snd a)) then b # insert_by_score a bs else a # b # bs)"

definition sort_by_score :: "ScoredItem list \<Rightarrow> ScoredItem list" where
  "sort_by_score items = foldr insert_by_score items []"

subsection \<open>The pooled-cosine prefilter\<close>

definition doc_pooled :: "string \<Rightarrow> string \<Rightarrow> rat list \<Rightarrow> VectorRecord" where
  "doc_pooled i p v = (mk_doc i p 0) \<lparr> pooled_colbert_48d := Some v \<rparr>"

text \<open>The loop computes the dot product over the indices of the query vector.\<close>

lemma dot_loop_sum:
  "dot_loop q v i dot
   = dot + (\<Sum>j = i..<length q. q ! j * (if j < length v then v ! j else 0))"
proof (induction q v i dot rule: dot_loop.induct)
  case (1 q v i dot)
  show ?case
  proof (cases "i < length q")
    case True
    then show ?thesis
      using 1 by (subst dot_loop.simps) (simp add: sum.atLeast_Suc_lessThan)
  next
    case False
    then show ?thesis
      by (subst dot_loop.simps) simp
  qed
qed

lemma cosineScore_dot:
  "cosineScore q d =
     (case pooled_colbert_48d d of
        None \<Rightarrow> - 1
      | Some v \<Rightarrow> (\<Sum>i < length q. q ! i * (if i < length v then v ! i else 0)))"
  by (simp add: cosineScore_def dot_loop_sum lessThan_atLeast0 split: option.split)

lemma insort_key_map: "insort_key f (g x) (map g xs) = map g (insort_key (\<lambda>x. f (g x)) x xs)"
  by (induction xs) auto

lemma sort_key_map: "sort_key f (map g xs) = map g (sort_key (\<lambda>x. f (g x)) xs)"
  by (induction xs) (auto simp: insort_key_map)

lemma stage2_skip:
  "qp = None \<or> int (length tc) \<le> STAGE2_K e \<Longrightarrow> stage2Candidates e qp tc = tc"
  by (auto simp: stage2Candidates_def split: option.splits)

text \<open>
  When the prefilter runs, it keeps the first \<open>STAGE2_K\<close> candidates of the stable
  sort by descending score.
\<close>

lemma stage2_kept:
  assumes "STAGE2_K e < int (length tc)"
  shows "stage2Candidates e (Some q) tc
    = take (nat (STAGE2_K e)) (sort_key (\<lambda>d. - cosineScore q d) tc)"
  using assms
  by (simp add: stage2Candidates_def slice0_def sort_desc_def sort_key_map take_map comp_def)

lemma stage2_run:
  assumes run: "STAGE2_K e < int (length tc)"
  shows "length (stage2Candidates e (Some q) tc) = nat (STAGE2_K e)"
    and "mset (stage2Candidates e (Some q) tc) \<subseteq># mset tc"
    and "sorted (map (\<lambda>d. - cosineScore q d) (stage2Candidates e (Some q) tc))"
    and "\<forall>x \<in># mset tc - mset (stage2Candidates e (Some q) tc).
           \<forall>y \<in> set (stage2Candidates e (Some q) tc). cosineScore q x \<le> cosineScore q y"
proof -
  define S where "S = sort_key (\<lambda>d. - cosineScore q d) tc"
  define n where "n = nat (STAGE2_K e)"
  have kept: "stage2Candidates e (Some q) tc = take n S"
    using stage2_kept [OF run] by (simp add: S_def n_def)
  have lenS: "length S = length tc"
    by (simp add: S_def)
  have msetS: "mset S = mset tc"
    by (simp add: S_def)
  have sortedS: "sorted (map (\<lambda>d. - cosineScore q d) S)"
    unfolding S_def by (rule sorted_sort_key)
  show "length (stage2Candidates e (Some q) tc) = nat (STAGE2_K e)"
    using run by (simp add: kept lenS n_def)
  have "mset S = mset (take n S @ drop n S)"
    by simp
  then have split: "mset tc = mset (take n S) + mset (drop n S)"
    unfolding msetS by (simp del: append_take_drop_id)
  show "mset (stage2Candidates e (Some q) tc) \<subseteq># mset tc"
    by (simp add: kept split)
  show "sorted (map (\<lambda>d. - cosineScore q d) (stage2Candidates e (Some q) tc))"
    using sortedS by (simp add: kept sorted_wrt_take flip: take_map)
  have rest: "mset tc - mset (stage2Candidates e (Some q) tc) = mset (drop n S)"
    by (simp add: kept split)
  show "\<forall>x \<in># mset tc - mset (stage2Candidates e (Some q) tc).
           \<forall>y \<in> set (stage2Candidates e (Some q) tc). cosineScore q x \<le> cosineScore q y"
  proof (intro ballI)
    fix x y
    assume xin: "x \<in># mset tc - mset (stage2Candidates e (Some q) tc)"
      and yin: "y \<in> set (stage2Candidates e (Some q) tc)"
    from xin have x: "x \<in> set (drop n S)"
      unfolding rest by (simp only: set_mset_mset)
    from yin have y: "y \<in> set (take n S)"
      unfolding kept .
    have "- cosineScore q y \<le> - cosineScore q x"
      using sorted_take_drop_le [OF sortedS y x] .
    then show "cosineScore q x \<le> cosineScore q y" by simp
  qed
qed

text \<open>
  Claim C4. The score of a candidate is the dot product of the query's pooled vector
  with the candidate's pooled vector (elements the candidate's vector lacks count as
  \<open>0\<close>), and \<open>-1\<close> for a candidate without a pooled vector. The prefilter changes the
  candidate list only when a pooled query vector is present and there are more than
  \<open>STAGE2_K\<close> candidates (40 when the variable is unset); otherwise the input of stage
  2 is the candidate list it was given, in the same order. When it runs, it keeps the
  first \<open>STAGE2_K\<close> candidates of the stable sort by descending score: exactly
  \<open>STAGE2_K\<close> of the candidates, in descending order of their score, and no dropped
  candidate scores higher than a kept one.
\<close>

theorem stage1_prefilter:
  "cosineScore q d =
     (case pooled_colbert_48d d of
        None \<Rightarrow> - 1
      | Some v \<Rightarrow> (\<Sum>i < length q. q ! i * (if i < length v then v ! i else 0)))
   \<and> (qp = None \<or> int (length tc) \<le> STAGE2_K e \<longrightarrow> stage2Candidates e qp tc = tc)
   \<and> (qp = Some q \<and> STAGE2_K e < int (length tc) \<longrightarrow>
        stage2Candidates e qp tc
          = take (nat (STAGE2_K e))
              (sort_key (\<lambda>d. - (case pooled_colbert_48d d of
                                   None \<Rightarrow> - 1
                                 | Some v \<Rightarrow> (\<Sum>i < length q. q ! i * (if i < length v then v ! i else 0))))
                 tc)
        \<and> length (stage2Candidates e qp tc) = nat (STAGE2_K e)
        \<and> mset (stage2Candidates e qp tc) \<subseteq># mset tc
        \<and> sorted (map (\<lambda>d. - cosineScore q d) (stage2Candidates e qp tc))
        \<and> (\<forall>x \<in># mset tc - mset (stage2Candidates e qp tc).
             \<forall>y \<in> set (stage2Candidates e qp tc). cosineScore q x \<le> cosineScore q y))
   \<and> STAGE2_K env_unset = 40"
proof -
  have "STAGE2_K env_unset = 40"
    by (simp add: STAGE2_K_def env_unset_def positive_or_def parseInt10_def or_empty_def)
  moreover have "stage2Candidates e (Some q) tc
      = take (nat (STAGE2_K e))
          (sort_key (\<lambda>d. - (case pooled_colbert_48d d of
                               None \<Rightarrow> - 1
                             | Some v \<Rightarrow> (\<Sum>i < length q. q ! i * (if i < length v then v ! i else 0))))
             tc)"
    if "STAGE2_K e < int (length tc)"
    using stage2_kept [OF that, of q] by (simp only: cosineScore_dot)
  ultimately show ?thesis
    using stage2_skip [of qp tc e] stage2_run [of e tc q] cosineScore_dot [of q d]
    by blast
qed

theorem stage1_prefilter_witness:
  "int (length [mk_doc ''a'' ''src/a.ts'' 0, doc_pooled ''b'' ''src/b.ts'' [1 / 2, 3]]) \<le> STAGE2_K env_unset
   \<and> stage2Candidates env_unset (Some [1, 1, 1])
         [mk_doc ''a'' ''src/a.ts'' 0, doc_pooled ''b'' ''src/b.ts'' [1 / 2, 3]]
       = [mk_doc ''a'' ''src/a.ts'' 0, doc_pooled ''b'' ''src/b.ts'' [1 / 2, 3]]
   \<and> STAGE2_K (env_unset \<lparr> OSGREP_STAGE2_K := Some ''1'' \<rparr>)
       < int (length [mk_doc ''a'' ''src/a.ts'' 0, doc_pooled ''b'' ''src/b.ts'' [1 / 2, 3]])
   \<and> stage2Candidates (env_unset \<lparr> OSGREP_STAGE2_K := Some ''1'' \<rparr>) (Some [1, 1, 1])
         [mk_doc ''a'' ''src/a.ts'' 0, doc_pooled ''b'' ''src/b.ts'' [1 / 2, 3]]
       = [doc_pooled ''b'' ''src/b.ts'' [1 / 2, 3]]
   \<and> cosineScore [1, 1, 1] (mk_doc ''a'' ''src/a.ts'' 0) = - 1
   \<and> cosineScore [1, 1, 1] (doc_pooled ''b'' ''src/b.ts'' [1 / 2, 3]) = 7 / 2"
proof -
  let ?a = "mk_doc ''a'' ''src/a.ts'' 0" and ?b = "doc_pooled ''b'' ''src/b.ts'' [1 / 2, 3]"
  let ?e1 = "env_unset \<lparr> OSGREP_STAGE2_K := Some ''1'' \<rparr>"
  have h1: "int (length [?a, ?b]) \<le> STAGE2_K env_unset"
    by (simp add: STAGE2_K_def env_unset_def positive_or_def parseInt10_def or_empty_def)
  have k1: "STAGE2_K ?e1 = 1"
    by (simp add: STAGE2_K_def env_unset_def positive_or_def parse_simps)
  have h2: "STAGE2_K ?e1 < int (length [?a, ?b])"
    by (simp add: k1)
  have pa: "pooled_colbert_48d ?a = None" and pb: "pooled_colbert_48d ?b = Some [1 / 2, 3]"
    by (simp_all add: mk_doc_def doc_pooled_def)
  note t0 = stage1_prefilter [of "[1, 1, 1]" ?a "Some [1, 1, 1]" "[?a, ?b]" env_unset]
  note t1 = stage1_prefilter [of "[1, 1, 1]" ?b "Some [1, 1, 1]" "[?a, ?b]" ?e1]
  from t0 have ca: "cosineScore [1, 1, 1] ?a = - 1"
    by (simp add: pa)
  from t1 have cb: "cosineScore [1, 1, 1] ?b = 7 / 2"
    by (simp add: pb lessThan_Suc numeral_3_eq_3)
  from t0 h1 have a: "stage2Candidates env_unset (Some [1, 1, 1]) [?a, ?b] = [?a, ?b]"
    by blast
  from t1 h2 have "stage2Candidates ?e1 (Some [1, 1, 1]) [?a, ?b]
      = take (nat (STAGE2_K ?e1))
          (sort_key (\<lambda>d. - (case pooled_colbert_48d d of
                               None \<Rightarrow> - 1
                             | Some v \<Rightarrow> (\<Sum>i < length [1, 1, 1 :: rat]. [1, 1, 1] ! i * (if i < length v then v ! i else 0))))
             [?a, ?b])"
    by blast
  then have b: "stage2Candidates ?e1 (Some [1, 1, 1]) [?a, ?b] = [?b]"
    by (simp add: k1 pa pb lessThan_Suc numeral_3_eq_3)
  show ?thesis
    using h1 h2 a b ca cb by simp
qed

section \<open>Per-file diversification\<close>

text \<open>
  The loop over the sorted items: an item is admitted while its path has fewer than
  \<open>MAX_PER_FILE\<close> admitted items; after each item the loop stops when the number of
  admitted items has reached \<open>finalLimit\<close>.
\<close>

fun diversify ::
  "int \<Rightarrow> int \<Rightarrow> ScoredItem list \<Rightarrow> (string \<times> nat) list \<Rightarrow> ScoredItem list \<Rightarrow> ScoredItem list" where
  "diversify maxPerFile finalLimit [] seenFiles diversified = diversified"
| "diversify maxPerFile finalLimit (item # rest) seenFiles diversified =
     (let p = path (fst item);
          count = get_or0 seenFiles p;
          admit = (int count < maxPerFile);
          diversified' = (if admit then diversified @ [item] else diversified);
          seenFiles' = (if admit then map_set p (count + 1) seenFiles else seenFiles)
      in if finalLimit \<le> int (length diversified') then diversified'
         else diversify maxPerFile finalLimit rest seenFiles' diversified')"

text \<open>How many items of a list belong to a path.\<close>

definition count_path :: "string \<Rightarrow> ScoredItem list \<Rightarrow> nat" where
  "count_path p xs = length (filter (\<lambda>it. path (fst it) = p) xs)"

lemma diversify_per_path:
  assumes "\<forall>p. get_or0 seen p = count_path p acc"
    and "\<forall>p. int (count_path p acc) \<le> m"
  shows "int (count_path p (diversify m l xs seen acc)) \<le> m"
  using assms
proof (induction xs arbitrary: seen acc)
  case Nil
  then show ?case by simp
next
  case (Cons item rest)
  let ?p = "path (fst item)"
  let ?admit = "int (get_or0 seen ?p) < m"
  let ?acc' = "if ?admit then acc @ [item] else acc"
  let ?seen' = "if ?admit then map_set ?p (get_or0 seen ?p + 1) seen else seen"
  have seen': "\<forall>p. get_or0 ?seen' p = count_path p ?acc'"
    using Cons.prems(1) by (auto simp: get_or0_map_set count_path_def)
  have bound': "\<forall>p. int (count_path p ?acc') \<le> m"
    using Cons.prems by (auto simp: count_path_def)
  show ?case
  proof (cases "l \<le> int (length ?acc')")
    case True
    then have "diversify m l (item # rest) seen acc = ?acc'"
      by (simp add: Let_def)
    then show ?thesis using bound' by simp
  next
    case False
    then have "diversify m l (item # rest) seen acc = diversify m l rest ?seen' ?acc'"
      by (simp add: Let_def)
    then show ?thesis
      using Cons.IH [OF seen' bound'] by simp
  qed
qed

lemma diversify_length:
  "int (length acc) < l \<Longrightarrow> int (length (diversify m l xs seen acc)) \<le> l"
proof (induction xs arbitrary: seen acc)
  case Nil
  then show ?case by simp
next
  case (Cons item rest)
  show ?case
    using Cons.prems Cons.IH
    by (auto simp: Let_def not_le)
qed



section \<open>The ranking pipeline of \<^verbatim>\<open>Searcher.search\<close>\<close>

definition topCandidates :: "env \<Rightarrow> VectorRecord list \<Rightarrow> VectorRecord list \<Rightarrow> VectorRecord list" where
  "topCandidates e vectorResults ftsResults = slice0 (STAGE1_K e) (fused vectorResults ftsResults)"

definition rerankCandidates ::
  "env \<Rightarrow> rat list option \<Rightarrow> VectorRecord list \<Rightarrow> VectorRecord list \<Rightarrow> VectorRecord list" where
  "rerankCandidates e queryPooled vectorResults ftsResults =
     slice0 (RERANK_TOP e) (stage2Candidates e queryPooled (topCandidates e vectorResults ftsResults))"

text \<open>
  From the scores of stage 2 to the diversified list: blend, boost, sort by descending
  score, diversify.
\<close>

definition shape ::
  "env \<Rightarrow> int \<Rightarrow> (string \<times> rat) list \<Rightarrow> rat list \<Rightarrow> VectorRecord list \<Rightarrow> ScoredItem list" where
  "shape e finalLimit cs scores cands =
     diversify (MAX_PER_FILE e) finalLimit (sort_by_score (scored e cs scores cands)) [] []"

text \<open>The diversified list of a search with \<^verbatim>\<open>rerank: false\<close>.\<close>

definition ranked_without_rerank ::
  "env \<Rightarrow> int \<Rightarrow> rat list option \<Rightarrow> VectorRecord list \<Rightarrow> VectorRecord list \<Rightarrow> ScoredItem list" where
  "ranked_without_rerank e finalLimit queryPooled vectorResults ftsResults =
     (let cs = candidateScores vectorResults ftsResults;
          cands = rerankCandidates e queryPooled vectorResults ftsResults
      in shape e finalLimit cs (fallbackScores cs cands) cands)"

subsection \<open>Ranking with rerank disabled\<close>









subsection \<open>Bounds of the diversified list\<close>

lemma shape_per_path: "int (count_path p (shape e l cs scores cands)) \<le> MAX_PER_FILE e"
  unfolding shape_def
  by (rule diversify_per_path) (simp_all add: count_path_def get_or0_def less_imp_le MAX_PER_FILE_pos)

lemma shape_length: "0 < l \<Longrightarrow> int (length (shape e l cs scores cands)) \<le> l"
  unfolding shape_def by (rule diversify_length) simp

section \<open>\<^verbatim>\<open>Searcher.search\<close> with its collaborators\<close>

text \<open>
  The worker pool and the vector store are outside the searcher: each of their calls
  either returns a value or throws, and the outcome is a parameter of the model. A result
  is \<open>Inl err\<close> when the call throws (the promise is rejected), \<open>Inr v\<close> when it returns.
\<close>

datatype error = Error string

record QueryEncoding =
  dense :: "rat list"
  colbert :: "int list"
  colbertDim :: nat
  query_pooled :: "rat list option"

record Table =
  vectorSearch :: "rat list \<Rightarrow> int \<Rightarrow> string option \<Rightarrow> error + VectorRecord list"
  ftsSearch :: "string \<Rightarrow> int \<Rightarrow> string option \<Rightarrow> error + VectorRecord list"

record VectorDB =
  ensureTable :: "error + Table"
  createFTSIndex :: "error + unit"

record WorkerPool =
  encodeQuery :: "string \<Rightarrow> error + QueryEncoding"
  rerank :: "int list \<Rightarrow> VectorRecord list \<Rightarrow> nat \<Rightarrow> error + rat list"

text \<open>What \<^verbatim>\<open>console.warn\<close> is called with.\<close>

datatype warning =
  ColbertDimMismatch nat nat
| FtsIndexFailed error
| FtsSearchFailed error

record ChunkType =
  chunk_text :: string
  chunk_score :: "rat number"
  metadata_path :: string
  metadata_hash :: string
  metadata_is_anchor :: bool
  generated_start_line :: int
  generated_num_lines :: int
  generated_type :: string

definition mapRecordToChunk :: "VectorRecord \<Rightarrow> rat number \<Rightarrow> ChunkType" where
  "mapRecordToChunk rec sc =
     (let fullText = context_prev rec
            @ (if display_text rec \<noteq> [] then display_text rec else content rec)
            @ context_next rec @ '' '';
          startLine = start_line rec;
          endLine = (if end_line rec \<noteq> 0 then end_line rec else startLine)
      in \<lparr> chunk_text = fullText, chunk_score = sc, metadata_path = path rec,
           metadata_hash = hash rec, metadata_is_anchor = is_anchor rec,
           generated_start_line = startLine,
           generated_num_lines = max 1 (endLine - startLine + 1),
           generated_type = chunk_type rec \<rparr>)"

text \<open>
  Modelled from the spec: \<^verbatim>\<open>escapeSqlString\<close> and \<^verbatim>\<open>normalizePath\<close> of
  \<^verbatim>\<open>utils/filter-builder\<close> are not among the source files. The spec says that SQL
  filters escape single quotes by doubling them and that path prefixes are
  POSIX-normalized (backslashes become slashes).
\<close>

definition escapeSqlString :: "string \<Rightarrow> string" where
  "escapeSqlString s = concat (map (\<lambda>c. if c = CHR 0x27 then [c, c] else [c]) s)"

definition normalizePath :: "string \<Rightarrow> string" where
  "normalizePath s = map (\<lambda>c. if c = CHR 0x5C then CHR ''/'' else c) s"

text \<open>The filter is built only for a path prefix that is present and not empty.\<close>

definition whereClause :: "string option \<Rightarrow> string option" where
  "whereClause pathPrefix =
     (case pathPrefix of
        None \<Rightarrow> None
      | Some p \<Rightarrow>
          if p = [] then None
          else Some (''path LIKE '' @ [CHR 0x27] @ escapeSqlString (normalizePath p)
                 @ ''%'' @ [CHR 0x27]))"

text \<open>
  \<^verbatim>\<open>search(query, top_k, {rerank}, _filters, pathPrefix)\<close>. The first argument and the
  first component of the result are the field \<^verbatim>\<open>ftsIndexChecked\<close> before and after the
  call; the second component lists the warnings; the third is the thrown error or the
  \<^verbatim>\<open>data\<close> of the response.
\<close>

definition search ::
  "bool \<Rightarrow> WorkerPool \<Rightarrow> VectorDB \<Rightarrow> env \<Rightarrow> nat \<Rightarrow> string \<Rightarrow> int option \<Rightarrow> bool option
     \<Rightarrow> string option \<Rightarrow> bool \<times> warning list \<times> (error + ChunkType list)" where
  "search ftsIndexChecked pool db e COLBERT_DIM query top_k rerank_option pathPrefix =
     (let finalLimit = (case top_k of None \<Rightarrow> 10 | Some k \<Rightarrow> k);
          doRerank = (case rerank_option of None \<Rightarrow> True | Some b \<Rightarrow> b)
      in case encodeQuery pool query of
           Inl err \<Rightarrow> (ftsIndexChecked, [], Inl err)
         | Inr enc \<Rightarrow>
            (let w1 = (if colbertDim enc \<noteq> COLBERT_DIM
                       then [ColbertDimMismatch (colbertDim enc) COLBERT_DIM] else []);
                 wh = whereClause pathPrefix;
                 k = PRE_RERANK_K e finalLimit
             in case ensureTable db of
                  Inl err \<Rightarrow> (ftsIndexChecked, w1, Inr [])
                | Inr table \<Rightarrow>
                   (let w2 = (if \<not> ftsIndexChecked
                              then (case createFTSIndex db of
                                      Inl err \<Rightarrow> [FtsIndexFailed err] | Inr u \<Rightarrow> [])
                              else [])
                    in case vectorSearch table (dense enc) k wh of
                         Inl err \<Rightarrow> (True, w1 @ w2, Inl err)
                       | Inr vectorResults \<Rightarrow>
                          (let fts = (case ftsSearch table query k wh of
                                        Inl err \<Rightarrow> ([], [FtsSearchFailed err])
                                      | Inr rs \<Rightarrow> (rs, []));
                               ftsResults = fst fts;
                               ws = w1 @ w2 @ snd fts;
                               cs = candidateScores vectorResults ftsResults;
                               stage2 = stage2Candidates e (query_pooled enc)
                                          (topCandidates e vectorResults ftsResults)
                           in (True, ws,
                               if length stage2 = 0 then Inr []
                               else
                                 (let cands = slice0 (RERANK_TOP e) stage2
                                  in case (if doRerank
                                           then rerank pool (colbert enc) cands (colbertDim enc)
                                           else Inr (fallbackScores cs cands)) of
                                       Inl err \<Rightarrow> Inl err
                                     | Inr scores \<Rightarrow>
                                         Inr (map (\<lambda>(r, s). mapRecordToChunk r (or_zero s))
                                                (shape e finalLimit cs scores cands))))))))"

subsection \<open>Failures of the collaborators\<close>







text \<open>Collaborators for examples.\<close>

definition enc_example :: QueryEncoding where
  "enc_example = \<lparr> dense = [1], colbert = [], colbertDim = 48, query_pooled = None \<rparr>"

definition pool_ok :: WorkerPool where
  "pool_ok = \<lparr> encodeQuery = (\<lambda>q. Inr enc_example), rerank = (\<lambda>q docs d. Inr (map (\<lambda>d. 1) docs)) \<rparr>"









subsection \<open>The result list of a search without rerank\<close>

text \<open>
  With \<^verbatim>\<open>rerank: false\<close>, a search whose encoding, table and dense query succeed returns
  the chunks of \<open>ranked_without_rerank\<close> on the two result lists.
\<close>

lemma search_without_rerank:
  assumes "encodeQuery pool query = Inr enc" and "ensureTable db = Inr table"
    and "vectorSearch table (dense enc) (PRE_RERANK_K e (case top_k of None \<Rightarrow> 10 | Some k \<Rightarrow> k))
           (whereClause pp) = Inr vectorResults"
    and "ftsSearch table query (PRE_RERANK_K e (case top_k of None \<Rightarrow> 10 | Some k \<Rightarrow> k))
           (whereClause pp) = Inr ftsResults"
  shows "snd (snd (search c pool db e COLBERT_DIM query top_k (Some False) pp))
    = Inr (map (\<lambda>(r, s). mapRecordToChunk r (or_zero s))
        (ranked_without_rerank e (case top_k of None \<Rightarrow> 10 | Some k \<Rightarrow> k) (query_pooled enc)
           vectorResults ftsResults))"
proof (cases "stage2Candidates e (query_pooled enc) (topCandidates e vectorResults ftsResults) = []")
  case True
  then have "ranked_without_rerank e (case top_k of None \<Rightarrow> 10 | Some k \<Rightarrow> k) (query_pooled enc)
           vectorResults ftsResults = []"
    by (simp add: ranked_without_rerank_def rerankCandidates_def slice0_def shape_def scored_def
        sort_by_score_def Let_def)
  then show ?thesis
    using assms True by (simp add: search_def Let_def)
next
  case False
  then show ?thesis
    using assms
    by (simp add: search_def Let_def ranked_without_rerank_def rerankCandidates_def)
qed

definition table_tests_first :: Table where
  "table_tests_first =
     \<lparr> vectorSearch = (\<lambda>v k w. Inr [mk_doc ''a'' ''tests/a.ts'' 0, mk_doc ''b'' ''src/b.ts'' 0]),
       ftsSearch = (\<lambda>q k w. Inr []) \<rparr>"

definition db_tests_first :: VectorDB where
  "db_tests_first = \<lparr> ensureTable = Inr table_tests_first, createFTSIndex = Inr () \<rparr>"


text \<open>
  Claim C5 at \<open>top_k = 0\<close>: \<open>finalLimit\<close> is \<open>0\<close>, the loop admits the first item
  before it compares the length with the limit, and the search returns one chunk, with
  rerank enabled as well as with the fused order alone.
\<close>

theorem zero_limit_admits_one:
  "map_sum id (map metadata_path)
     (snd (snd (search False pool_ok db_tests_first env_unset 48 ''query'' (Some 0) None None)))
     = Inr [''src/b.ts'']
   \<and> length (ranked_without_rerank env_unset 0 None
       [mk_doc ''a'' ''src/a.ts'' 0, mk_doc ''b'' ''src/b.ts'' 0] []) = 1"
  by code_simp

section \<open>\<^verbatim>\<open>WorkerManager.getEmbeddings\<close> and the vector cache\<close>

type_synonym vector = "rat list"

text \<open>
  The key of a cache entry: a text, or \<^verbatim>\<open>undefined\<close> (what \<^verbatim>\<open>neededTexts[i]\<close> is
  beyond the end of the array).
\<close>

datatype cache_key = Text string | Undefined

text \<open>
  Modelled from the spec: the class \<^verbatim>\<open>LRUCache\<close> of \<^verbatim>\<open>./lru\<close> is not among the
  source files. The spec describes a bounded mapping from input text to embedding vector
  with a configured capacity that evicts the least recently used entry on overflow. The
  items are kept most recently used first.
\<close>

record LRUCache =
  capacity :: nat
  items :: "(cache_key \<times> vector) list"

definition lru_get :: "LRUCache \<Rightarrow> cache_key \<Rightarrow> vector option \<times> LRUCache" where
  "lru_get cache k =
     (case map_of (items cache) k of
        None \<Rightarrow> (None, cache)
      | Some v \<Rightarrow> (Some v, cache \<lparr> items := (k, v) # filter (\<lambda>kv. fst kv \<noteq> k) (items cache) \<rparr>))"

definition lru_set :: "LRUCache \<Rightarrow> cache_key \<Rightarrow> vector \<Rightarrow> LRUCache" where
  "lru_set cache k v =
     cache \<lparr> items := take (capacity cache) ((k, v) # filter (\<lambda>kv. fst kv \<noteq> k) (items cache)) \<rparr>"

text \<open>
  \<^verbatim>\<open>results[i] = v\<close> on an array with holes (\<open>None\<close>): an index beyond the end
  extends the array.
\<close>

definition array_set :: "'a option list \<Rightarrow> nat \<Rightarrow> 'a \<Rightarrow> 'a option list" where
  "array_set xs i v =
     (if i < length xs then xs[i := Some v]
      else xs @ replicate (i - length xs) None @ [Some v])"

text \<open>
  The first loop of \<^verbatim>\<open>getEmbeddings\<close>, from index \<open>i\<close> on: it returns \<open>results\<close>,
  \<open>neededIndices\<close>, \<open>neededTexts\<close> and the cache after the lookups.
\<close>

fun scan_cache ::
  "string list \<Rightarrow> nat \<Rightarrow> LRUCache \<Rightarrow> vector option list \<times> nat list \<times> string list \<times> LRUCache" where
  "scan_cache [] i cache = ([], [], [], cache)"
| "scan_cache (text # texts) i cache =
     (case lru_get cache (Text text) of
        (cached, cache') \<Rightarrow>
          (case scan_cache texts (Suc i) cache' of
             (results, neededIndices, neededTexts, cache'') \<Rightarrow>
               (case cached of
                  Some v \<Rightarrow> (Some v # results, neededIndices, neededTexts, cache'')
                | None \<Rightarrow> (None # results, i # neededIndices, text # neededTexts, cache''))))"

text \<open>
  The second loop, over \<open>computedVectors\<close> from index \<open>i\<close> on. Beyond the end of
  \<open>neededIndices\<close> the index is \<^verbatim>\<open>undefined\<close> and the assignment sets no element.
\<close>

fun store_computed ::
  "vector list \<Rightarrow> nat \<Rightarrow> nat list \<Rightarrow> string list \<Rightarrow> vector option list \<times> LRUCache
     \<Rightarrow> vector option list \<times> LRUCache" where
  "store_computed [] i neededIndices neededTexts st = st"
| "store_computed (v # computedVectors) i neededIndices neededTexts (results, cache) =
     (let text = (if i < length neededTexts then Text (neededTexts ! i) else Undefined);
          cache' = lru_set cache text v;
          results' = (if i < length neededIndices then array_set results (neededIndices ! i) v
                      else results)
      in store_computed computedVectors (Suc i) neededIndices neededTexts (results', cache'))"

text \<open>
  \<^verbatim>\<open>getEmbeddings(texts)\<close>. The parameter \<open>sendToWorker\<close> is the outcome of the batch
  request for the given texts: the vectors of the reply, or the error the promise is
  rejected with (a worker error, a timeout, a restart). The result is what the call
  returns or throws, the cache afterwards, and the batches sent to the pool.
\<close>

definition getEmbeddings ::
  "(string list \<Rightarrow> error + vector list) \<Rightarrow> LRUCache \<Rightarrow> string list
     \<Rightarrow> (error + vector option list) \<times> LRUCache \<times> string list list" where
  "getEmbeddings sendToWorker cache texts =
     (case scan_cache texts 0 cache of
        (results, neededIndices, neededTexts, cache1) \<Rightarrow>
          if length neededTexts = 0 then (Inr results, cache1, [])
          else
            (case sendToWorker neededTexts of
               Inl err \<Rightarrow> (Inl err, cache1, [neededTexts])
             | Inr computedVectors \<Rightarrow>
                 (case store_computed computedVectors 0 neededIndices neededTexts (results, cache1) of
                    (results', cache2) \<Rightarrow> (Inr results', cache2, [neededTexts]))))"

text \<open>The cached vector of a text, and whether a text has none.\<close>

definition cached_vector :: "LRUCache \<Rightarrow> string \<Rightarrow> vector option" where
  "cached_vector cache text = map_of (items cache) (Text text)"

definition uncached :: "LRUCache \<Rightarrow> string \<Rightarrow> bool" where
  "uncached cache text = (cached_vector cache text = None)"

subsection \<open>The two loops\<close>

lemma lru_get_value: "fst (lru_get cache k) = map_of (items cache) k"
  by (simp add: lru_get_def split: option.splits)

lemma map_of_filter_other:
  "x \<noteq> k \<Longrightarrow> map_of (filter (\<lambda>kv. fst kv \<noteq> k) m) x = map_of m x"
  by (induction m) auto

lemma map_of_move_front:
  "map_of m k = Some v \<Longrightarrow> map_of ((k, v) # filter (\<lambda>kv. fst kv \<noteq> k) m) = map_of m"
  by (auto simp: fun_eq_iff map_of_filter_other)

lemma lru_get_entries: "map_of (items (snd (lru_get cache k))) = map_of (items cache)"
  by (auto simp: lru_get_def fun_eq_iff map_of_filter_other split: option.splits)

lemma filter_upt_Suc:
  "filter (\<lambda>j. P ((x # xs) ! j)) [0..<Suc (length xs)]
   = (if P x then [0] else []) @ map Suc (filter (\<lambda>j. P (xs ! j)) [0..<length xs])"
proof -
  have "[0..<Suc (length xs)] = 0 # map Suc [0..<length xs]"
    by (simp add: upt_conv_Cons map_Suc_upt del: upt_Suc)
  then show ?thesis
    by (simp add: filter_map comp_def del: upt_Suc)
qed

lemma scan_cache_spec:
  "\<exists>cache'. scan_cache texts i cache =
     (map (cached_vector cache) texts,
      map (\<lambda>j. i + j) (filter (\<lambda>j. uncached cache (texts ! j)) [0..<length texts]),
      filter (uncached cache) texts, cache')
     \<and> map_of (items cache') = map_of (items cache)"
proof (induction texts arbitrary: i cache)
  case Nil
  then show ?case by simp
next
  case (Cons t texts)
  obtain cached cache1 where g: "lru_get cache (Text t) = (cached, cache1)"
    by (cases "lru_get cache (Text t)")
  have cached: "cached = cached_vector cache t"
    using lru_get_value [of cache "Text t"] g by (simp add: cached_vector_def)
  have same: "map_of (items cache1) = map_of (items cache)"
    using lru_get_entries [of cache "Text t"] g by simp
  then have cv: "cached_vector cache1 = cached_vector cache" and uc: "uncached cache1 = uncached cache"
    by (auto simp: cached_vector_def uncached_def fun_eq_iff)
  obtain cache2 where ih: "scan_cache texts (Suc i) cache1 =
     (map (cached_vector cache) texts,
      map (\<lambda>j. Suc i + j) (filter (\<lambda>j. uncached cache (texts ! j)) [0..<length texts]),
      filter (uncached cache) texts, cache2)"
    and same2: "map_of (items cache2) = map_of (items cache)"
    using Cons.IH [of "Suc i" cache1] cv uc same by auto
  show ?case
  proof (cases cached)
    case None
    then have u: "uncached cache t"
      using cached by (simp add: uncached_def)
    show ?thesis
      using None u cached same2
      by (simp add: g ih filter_upt_Suc comp_def del: upt_Suc)
  next
    case (Some v)
    then have u: "\<not> uncached cache t"
      using cached by (simp add: uncached_def)
    show ?thesis
      using Some u cached same2
      by (simp add: g ih filter_upt_Suc comp_def del: upt_Suc)
  qed
qed

lemma store_computed_spec:
  assumes "i + length vs = length ni" and "distinct ni" and "\<forall>idx \<in> set ni. idx < length rs"
  shows "length (fst (store_computed vs i ni nt (rs, c))) = length rs
    \<and> (\<forall>k. i \<le> k \<and> k < length ni \<longrightarrow> fst (store_computed vs i ni nt (rs, c)) ! (ni ! k) = Some (vs ! (k - i)))
    \<and> (\<forall>p. p \<notin> set (drop i ni) \<longrightarrow> fst (store_computed vs i ni nt (rs, c)) ! p = rs ! p)"
  using assms
proof (induction vs arbitrary: i rs c)
  case Nil
  then show ?case by auto
next
  case (Cons v vs)
  let ?c' = "lru_set c (if i < length nt then Text (nt ! i) else Undefined) v"
  let ?rs' = "array_set rs (ni ! i) v"
  from Cons.prems have i: "i < length ni" by simp
  then have inr: "ni ! i < length rs" using Cons.prems(3) by simp
  have step: "store_computed (v # vs) i ni nt (rs, c) = store_computed vs (Suc i) ni nt (?rs', ?c')"
    using i by (simp add: Let_def)
  have rs': "?rs' = rs[ni ! i := Some v]"
    using inr by (simp add: array_set_def)
  have len: "length ?rs' = length rs" by (simp add: rs')
  have ih: "length (fst (store_computed vs (Suc i) ni nt (?rs', ?c'))) = length ?rs'
    \<and> (\<forall>k. Suc i \<le> k \<and> k < length ni \<longrightarrow> fst (store_computed vs (Suc i) ni nt (?rs', ?c')) ! (ni ! k) = Some (vs ! (k - Suc i)))
    \<and> (\<forall>p. p \<notin> set (drop (Suc i) ni) \<longrightarrow> fst (store_computed vs (Suc i) ni nt (?rs', ?c')) ! p = ?rs' ! p)"
    using Cons.prems by (intro Cons.IH) (simp_all add: len)
  have notin: "ni ! i \<notin> set (drop (Suc i) ni)"
  proof
    assume "ni ! i \<in> set (drop (Suc i) ni)"
    then obtain j where "j < length (drop (Suc i) ni)" "drop (Suc i) ni ! j = ni ! i"
      by (auto simp: in_set_conv_nth)
    then have "ni ! (Suc i + j) = ni ! i" "Suc i + j < length ni" by auto
    with Cons.prems(2) i show False
      by (auto simp: nth_eq_iff_index_eq)
  qed
  have dropi: "drop i ni = ni ! i # drop (Suc i) ni"
    using i by (simp add: Cons_nth_drop_Suc)
  show ?case
  proof (intro conjI allI impI)
    show "length (fst (store_computed (v # vs) i ni nt (rs, c))) = length rs"
      using ih len by (simp only: step)
  next
    fix k
    assume k: "i \<le> k \<and> k < length ni"
    show "fst (store_computed (v # vs) i ni nt (rs, c)) ! (ni ! k) = Some ((v # vs) ! (k - i))"
    proof (cases "k = i")
      case True
      then show ?thesis
        unfolding step using ih notin inr by (simp add: rs')
    next
      case False
      then have "Suc i \<le> k" using k by simp
      then show ?thesis
        unfolding step using ih k by (simp add: Suc_diff_le)
    qed
  next
    fix p
    assume "p \<notin> set (drop i ni)"
    then have "p \<noteq> ni ! i" "p \<notin> set (drop (Suc i) ni)"
      by (auto simp: dropi)
    then show "fst (store_computed (v # vs) i ni nt (rs, c)) ! p = rs ! p"
      unfolding step using ih by (simp add: rs')
  qed
qed

lemma take_as_map_nth: "p \<le> length xs \<Longrightarrow> take p xs = map ((!) xs) [0..<p]"
  by (simp add: list_eq_iff_nth_eq)

lemma filter_index_count:
  "p \<le> length xs \<Longrightarrow>
   length (filter (\<lambda>j. P (xs ! j)) [0..<p]) = length (filter P (take p xs))"
  by (simp add: take_as_map_nth filter_map comp_def)

lemma filter_upt_nth:
  assumes "p < n" and "Q p"
  shows "filter Q [0..<n] ! length (filter Q [0..<p]) = p"
    and "length (filter Q [0..<p]) < length (filter Q [0..<n])"
proof -
  have "[0..<n] = [0..<p] @ p # [Suc p..<n]"
    using assms(1) by (metis less_imp_le_nat upt_add_eq_append upt_conv_Cons le_add_diff_inverse zero_le)
  then have f: "filter Q [0..<n] = filter Q [0..<p] @ p # filter Q [Suc p..<n]"
    using assms(2) by simp
  show "filter Q [0..<n] ! length (filter Q [0..<p]) = p"
    unfolding f by (simp add: nth_append)
  show "length (filter Q [0..<p]) < length (filter Q [0..<n])"
    unfolding f by simp
qed

lemma getEmbeddings_all_cached:
  assumes "\<forall>t \<in> set texts. \<not> uncached cache t"
  shows "fst (getEmbeddings w cache texts) = Inr (map (cached_vector cache) texts)"
    and "snd (snd (getEmbeddings w cache texts)) = []"
proof -
  obtain cache' where sc: "scan_cache texts 0 cache =
     (map (cached_vector cache) texts,
      map (\<lambda>j. 0 + j) (filter (\<lambda>j. uncached cache (texts ! j)) [0..<length texts]),
      filter (uncached cache) texts, cache')"
    using scan_cache_spec [of texts 0 cache] by blast
  have "filter (uncached cache) texts = []"
    using assms by (simp add: filter_empty_conv)
  then show "fst (getEmbeddings w cache texts) = Inr (map (cached_vector cache) texts)"
    and "snd (snd (getEmbeddings w cache texts)) = []"
    by (simp_all add: getEmbeddings_def sc)
qed

lemma getEmbeddings_sends_uncached:
  assumes "\<exists>t \<in> set texts. uncached cache t"
  shows "snd (snd (getEmbeddings w cache texts)) = [filter (uncached cache) texts]"
proof -
  obtain cache' where sc: "scan_cache texts 0 cache =
     (map (cached_vector cache) texts,
      map (\<lambda>j. 0 + j) (filter (\<lambda>j. uncached cache (texts ! j)) [0..<length texts]),
      filter (uncached cache) texts, cache')"
    using scan_cache_spec [of texts 0 cache] by blast
  have "filter (uncached cache) texts \<noteq> []"
    using assms by (simp add: filter_empty_conv)
  then show ?thesis
    by (simp add: getEmbeddings_def sc split: sum.split prod.split)
qed

lemma getEmbeddings_vectors:
  assumes w: "w (filter (uncached cache) texts) = Inr vs"
    and len: "length vs = length (filter (uncached cache) texts)"
  shows "\<exists>rs. fst (getEmbeddings w cache texts) = Inr rs \<and> length rs = length texts
    \<and> (\<forall>i < length texts. rs ! i =
          Some (case cached_vector cache (texts ! i) of
                  Some v \<Rightarrow> v
                | None \<Rightarrow> vs ! length (filter (uncached cache) (take i texts))))"
proof -
  define ni where "ni = filter (\<lambda>j. uncached cache (texts ! j)) [0..<length texts]"
  define nt where "nt = filter (uncached cache) texts"
  define rs0 where "rs0 = map (cached_vector cache) texts"
  obtain cache' where sc: "scan_cache texts 0 cache = (rs0, ni, nt, cache')"
    using scan_cache_spec [of texts 0 cache] by (auto simp: ni_def nt_def rs0_def)
  have lni: "length ni = length nt"
    unfolding ni_def nt_def
    using filter_index_count [of "length texts" texts "uncached cache"] by simp
  have cachedi: "rs0 ! i = Some (case cached_vector cache (texts ! i) of Some v \<Rightarrow> v | None \<Rightarrow> x)"
    if "i < length texts" "\<not> uncached cache (texts ! i)" for i x
    using that by (auto simp: rs0_def uncached_def)
  show ?thesis
  proof (cases "nt = []")
    case True
    then have all: "\<And>i. i < length texts \<Longrightarrow> \<not> uncached cache (texts ! i)"
      by (auto simp: nt_def filter_empty_conv)
    have "fst (getEmbeddings w cache texts) = Inr rs0"
      using True by (simp add: getEmbeddings_def sc)
    moreover have "length rs0 = length texts" by (simp add: rs0_def)
    ultimately show ?thesis
      using cachedi all by blast
  next
    case False
    obtain rs c2 where st: "store_computed vs 0 ni nt (rs0, cache') = (rs, c2)"
      by (cases "store_computed vs 0 ni nt (rs0, cache')")
    have res: "fst (getEmbeddings w cache texts) = Inr rs"
      using False w by (simp add: getEmbeddings_def sc st flip: nt_def)
    have "0 + length vs = length ni" using len lni by (simp add: nt_def)
    moreover have "distinct ni" by (simp add: ni_def)
    moreover have "\<forall>idx \<in> set ni. idx < length rs0" by (auto simp: ni_def rs0_def)
    ultimately have spec: "length (fst (store_computed vs 0 ni nt (rs0, cache'))) = length rs0
      \<and> (\<forall>k. 0 \<le> k \<and> k < length ni \<longrightarrow> fst (store_computed vs 0 ni nt (rs0, cache')) ! (ni ! k) = Some (vs ! (k - 0)))
      \<and> (\<forall>p. p \<notin> set (drop 0 ni) \<longrightarrow> fst (store_computed vs 0 ni nt (rs0, cache')) ! p = rs0 ! p)"
      by (rule store_computed_spec)
    from this [unfolded st] have lrs: "length rs = length texts"
      and hit: "\<And>k. k < length ni \<Longrightarrow> rs ! (ni ! k) = Some (vs ! k)"
      and miss: "\<And>p. p \<notin> set ni \<Longrightarrow> rs ! p = rs0 ! p"
      by (simp_all add: rs0_def)
    have "rs ! i = Some (case cached_vector cache (texts ! i) of
                  Some v \<Rightarrow> v
                | None \<Rightarrow> vs ! length (filter (uncached cache) (take i texts)))"
      if i: "i < length texts" for i
    proof (cases "uncached cache (texts ! i)")
      case True
      let ?k = "length (filter (\<lambda>j. uncached cache (texts ! j)) [0..<i])"
      have "ni ! ?k = i" and "?k < length ni"
        unfolding ni_def using filter_upt_nth [OF i, of "\<lambda>j. uncached cache (texts ! j)"] True by auto
      then have "rs ! i = Some (vs ! ?k)"
        using hit [of ?k] by simp
      moreover have "?k = length (filter (uncached cache) (take i texts))"
        using i by (simp add: filter_index_count)
      ultimately show ?thesis
        using True by (simp add: uncached_def)
    next
      case False
      then have "i \<notin> set ni" by (simp add: ni_def)
      then show ?thesis
        using miss cachedi [OF i False] by simp
    qed
    then show ?thesis
      using res lrs by blast
  qed
qed

text \<open>
  Claim C10. When every text has a cached vector, \<^verbatim>\<open>getEmbeddings\<close> returns the cached
  vectors and sends nothing to the pool. Otherwise it sends one batch, made of exactly the
  texts without a cached vector, in their order. When the pool answers that batch with
  one vector per text, the call returns one vector per input text: at index \<open>i\<close> the
  cached vector of \<open>texts ! i\<close>, or else the computed vector at the position of
  \<open>texts ! i\<close> in the batch.
\<close>

theorem getEmbeddings_serves_cache_first:
  "((\<forall>t \<in> set texts. \<not> uncached cache t) \<longrightarrow>
      fst (getEmbeddings w cache texts) = Inr (map (cached_vector cache) texts)
      \<and> snd (snd (getEmbeddings w cache texts)) = [])
   \<and> ((\<exists>t \<in> set texts. uncached cache t) \<longrightarrow>
      snd (snd (getEmbeddings w cache texts)) = [filter (uncached cache) texts])
   \<and> (w (filter (uncached cache) texts) = Inr vs
       \<and> length vs = length (filter (uncached cache) texts) \<longrightarrow>
      (\<exists>rs. fst (getEmbeddings w cache texts) = Inr rs \<and> length rs = length texts
        \<and> (\<forall>i < length texts. rs ! i =
              Some (case cached_vector cache (texts ! i) of
                      Some v \<Rightarrow> v
                    | None \<Rightarrow> vs ! length (filter (uncached cache) (take i texts))))))"
  using getEmbeddings_all_cached [of texts cache w] getEmbeddings_sends_uncached [of texts cache w]
    getEmbeddings_vectors [of w cache texts vs]
  by blast

definition cache_example :: LRUCache where
  "cache_example = \<lparr> capacity = 2, items = [(Text ''a'', [1])] \<rparr>"

definition worker_example :: "string list \<Rightarrow> error + vector list" where
  "worker_example ts = Inr (map (\<lambda>t. [2]) ts)"

theorem getEmbeddings_serves_cache_first_witness:
  "\<not> uncached cache_example ''a'' \<and> uncached cache_example ''b''
   \<and> fst (getEmbeddings worker_example cache_example [''a'']) = Inr [Some [1]]
   \<and> snd (snd (getEmbeddings worker_example cache_example [''a''])) = []
   \<and> snd (snd (getEmbeddings worker_example cache_example [''a'', ''b''])) = [[''b'']]
   \<and> (\<exists>rs. fst (getEmbeddings worker_example cache_example [''a'', ''b'']) = Inr rs
         \<and> length rs = 2 \<and> rs ! 0 = Some [1] \<and> rs ! 1 = Some [2])"
proof -
  have a: "cached_vector cache_example ''a'' = Some [1]"
    by (simp add: cached_vector_def cache_example_def)
  have b: "cached_vector cache_example ''b'' = None"
    by (simp add: cached_vector_def cache_example_def)
  have ua: "\<not> uncached cache_example ''a''" and ub: "uncached cache_example ''b''"
    by (simp_all add: uncached_def a b)
  have w: "worker_example (filter (uncached cache_example) [''a'', ''b'']) = Inr [[2]]"
    by (simp add: worker_example_def ua ub)
  from getEmbeddings_serves_cache_first [of "[''a'']" cache_example worker_example] ua
  have 1: "fst (getEmbeddings worker_example cache_example [''a'']) = Inr [Some [1]]"
    and 2: "snd (snd (getEmbeddings worker_example cache_example [''a''])) = []"
    by (simp_all add: a)
  from getEmbeddings_serves_cache_first [of "[''a'', ''b'']" cache_example worker_example "[[2]]"] ua ub w
  obtain rs where 3: "snd (snd (getEmbeddings worker_example cache_example [''a'', ''b''])) = [[''b'']]"
    and 4: "fst (getEmbeddings worker_example cache_example [''a'', ''b'']) = Inr rs"
      "length rs = 2"
    and 5: "\<forall>i < 2. rs ! i = Some (case cached_vector cache_example ([''a'', ''b''] ! i) of
                      Some v \<Rightarrow> v
                    | None \<Rightarrow> [[2]] ! length (filter (uncached cache_example) (take i [''a'', ''b''])))"
    by auto
  from 5 have "rs ! 0 = Some [1]" and "rs ! 1 = Some [2]"
    by (simp_all add: a b ua ub)
  then show ?thesis
    using ua ub 1 2 3 4 by blast
qed

section \<open>The meta store\<close>

subsection \<open>JSON values and meta entries\<close>

text \<open>
  A parsed JSON value. A number is \<open>Fin r\<close>, or an infinity for a literal beyond the
  range of a double. The properties of an object have distinct names.
\<close>

datatype json =
  JNull | JBool bool | JNum "rat number" | JStr string | JArr "json list"
| JObj "(string \<times> json) list"










subsection \<open>Files\<close>











subsection \<open>\<^verbatim>\<open>MetaStore.load\<close> and \<^verbatim>\<open>MetaStore.save\<close>\<close>














subsection \<open>A process killed during its calls\<close>





subsection \<open>Durability\<close>


















section \<open>Worker restart\<close>

text \<open>
  The manager runs on one thread: a function body runs without interruption up to its
  next \<^verbatim>\<open>await\<close>. \<^verbatim>\<open>restartWorker\<close> has three such parts: the call itself, up to the
  \<^verbatim>\<open>await\<close> of \<^verbatim>\<open>worker.terminate()\<close> inside the restart promise; the rest of the
  restart promise, run when the termination has settled; and the end of the call that
  started the restart, run when the restart promise has settled. Events are the starts of
  these parts, and a state records what the manager has done so far.
\<close>

datatype event =
  RestartRequest nat string
| TerminateSettled nat
| OwnerResumes nat

text \<open>
  Workers are told apart by a number given at construction (\<open>fresh\<close> is the next one). A
  pending request is its id with its worker index. \<open>restartInFlight\<close> maps a slot to
  whether its restart promise has settled. The last five fields are a record of effects:
  the workers \<^verbatim>\<open>terminate()\<close> was called on, the workers constructed per slot, the
  requests rejected with their message, the slots awaited by calls that were handed an
  existing restart promise, and the number of \<^verbatim>\<open>restartWorker\<close> calls that have returned.
\<close>

record WorkerManager =
  workers :: "nat option list"
  pendingRequests :: "(string \<times> nat) list"
  restartInFlight :: "(nat \<times> bool) list"
  fresh :: nat
  terminated :: "nat list"
  created :: "(nat \<times> nat) list"
  rejected :: "(string \<times> string) list"
  awaiting :: "nat list"
  completed :: nat

text \<open>\<^verbatim>\<open>this.workers[index] = v\<close>: an index beyond the end extends the array.\<close>

definition assign_slot :: "'a option list \<Rightarrow> nat \<Rightarrow> 'a option \<Rightarrow> 'a option list" where
  "assign_slot xs i v =
     (if i < length xs then xs[i := v] else xs @ replicate (i - length xs) None @ [v])"

text \<open>\<^verbatim>\<open>this.workers[index]\<close>: \<^verbatim>\<open>undefined\<close> beyond the end, falsy like \<^verbatim>\<open>null\<close>.\<close>

definition worker_at :: "WorkerManager \<Rightarrow> nat \<Rightarrow> nat option" where
  "worker_at s i = (if i < length (workers s) then workers s ! i else None)"

definition createWorker :: "nat \<Rightarrow> WorkerManager \<Rightarrow> WorkerManager" where
  "createWorker index s =
     s \<lparr> workers := assign_slot (workers s) index (Some (fresh s)),
         created := created s @ [(index, fresh s)],
         fresh := Suc (fresh s) \<rparr>"

definition rejectPendingForWorker :: "nat \<Rightarrow> string \<Rightarrow> WorkerManager \<Rightarrow> WorkerManager" where
  "rejectPendingForWorker workerIndex message s =
     s \<lparr> rejected := rejected s
            @ map (\<lambda>p. (fst p, message)) (filter (\<lambda>p. snd p = workerIndex) (pendingRequests s)),
         pendingRequests := filter (\<lambda>p. snd p \<noteq> workerIndex) (pendingRequests s) \<rparr>"

text \<open>
  The call \<^verbatim>\<open>restartWorker(workerIndex, reason)\<close> up to its first suspension. With a
  restart in flight the call returns the existing promise. Otherwise it rejects the
  pending requests of the slot and starts the restart promise, which calls
  \<^verbatim>\<open>terminate()\<close> on the worker of the slot and waits, or, when the slot holds no worker,
  constructs the new worker at once; then the promise is stored in the map.
\<close>

definition restart_request :: "nat \<Rightarrow> string \<Rightarrow> WorkerManager \<Rightarrow> WorkerManager" where
  "restart_request workerIndex reason s =
     (case map_of (restartInFlight s) workerIndex of
        Some settled \<Rightarrow>
          if settled then s \<lparr> completed := Suc (completed s) \<rparr>
          else s \<lparr> awaiting := awaiting s @ [workerIndex] \<rparr>
      | None \<Rightarrow>
          (let s1 = rejectPendingForWorker workerIndex
                      (''Worker restarting: '' @ (if reason = [] then ''unknown reason'' else reason)) s
           in case worker_at s1 workerIndex of
                Some worker \<Rightarrow>
                  s1 \<lparr> terminated := terminated s1 @ [worker],
                       restartInFlight := map_set workerIndex False (restartInFlight s1) \<rparr>
              | None \<Rightarrow>
                  (let s2 = createWorker workerIndex
                              (s1 \<lparr> workers := assign_slot (workers s1) workerIndex None \<rparr>)
                   in s2 \<lparr> restartInFlight := map_set workerIndex True (restartInFlight s2) \<rparr>)))"

text \<open>
  The rest of the restart promise, after the termination has settled (a failure is caught
  and logged): the slot is cleared and a new worker is constructed in it. The promise
  settles, and with it the calls that were handed it.
\<close>

definition terminate_settled :: "nat \<Rightarrow> WorkerManager \<Rightarrow> WorkerManager" where
  "terminate_settled workerIndex s =
     (if map_of (restartInFlight s) workerIndex = Some False
      then
        (let s1 = createWorker workerIndex
                    (s \<lparr> workers := assign_slot (workers s) workerIndex None \<rparr>)
         in s1 \<lparr> restartInFlight := map_set workerIndex True (restartInFlight s1),
                 completed := completed s1 + length (filter (\<lambda>j. j = workerIndex) (awaiting s1)),
                 awaiting := filter (\<lambda>j. j \<noteq> workerIndex) (awaiting s1) \<rparr>)
      else s)"

text \<open>The end of the call that started the restart: \<^verbatim>\<open>restartInFlight.delete(workerIndex)\<close>.\<close>

definition owner_resumes :: "nat \<Rightarrow> WorkerManager \<Rightarrow> WorkerManager" where
  "owner_resumes workerIndex s =
     (if map_of (restartInFlight s) workerIndex = Some True
      then s \<lparr> restartInFlight := filter (\<lambda>p. fst p \<noteq> workerIndex) (restartInFlight s),
               completed := Suc (completed s) \<rparr>
      else s)"

fun step :: "event \<Rightarrow> WorkerManager \<Rightarrow> WorkerManager" where
  "step (RestartRequest i reason) s = restart_request i reason s"
| "step (TerminateSettled i) s = terminate_settled i s"
| "step (OwnerResumes i) s = owner_resumes i s"

text \<open>The manager after a sequence of events.\<close>

definition run :: "event list \<Rightarrow> WorkerManager \<Rightarrow> WorkerManager" where
  "run events s = fold step events s"

subsection \<open>Single flight\<close>

lemma restart_request_joins:
  assumes "map_of (restartInFlight s) i = Some b"
  shows "workers (restart_request i reason s) = workers s"
    and "pendingRequests (restart_request i reason s) = pendingRequests s"
    and "restartInFlight (restart_request i reason s) = restartInFlight s"
    and "terminated (restart_request i reason s) = terminated s"
    and "created (restart_request i reason s) = created s"
    and "rejected (restart_request i reason s) = rejected s"
    and "fresh (restart_request i reason s) = fresh s"
  using assms by (simp_all add: restart_request_def)

lemma run_Nil: "run [] s = s"
  by (simp add: run_def)

lemma run_Cons: "run (e # es) s = run es (step e s)"
  by (simp add: run_def)

lemma run_append: "run (es @ es') s = run es' (run es s)"
  by (simp add: run_def)

lemma run_requests_running:
  "map_of (restartInFlight s) i = Some False \<Longrightarrow>
   run (map (RestartRequest i) reasons) s = s \<lparr> awaiting := awaiting s @ replicate (length reasons) i \<rparr>"
proof (induction reasons arbitrary: s)
  case Nil
  then show ?case by (simp add: run_Nil)
next
  case (Cons r reasons)
  let ?s' = "s \<lparr> awaiting := awaiting s @ [i] \<rparr>"
  have st: "restart_request i r s = ?s'"
    using Cons.prems by (simp add: restart_request_def)
  have "map_of (restartInFlight ?s') i = Some False"
    using Cons.prems by simp
  from Cons.IH [OF this] show ?case
    by (simp add: run_Cons st replicate_app_Cons_same)
qed

lemma run_requests_settled:
  "map_of (restartInFlight s) i = Some True \<Longrightarrow>
   run (map (RestartRequest i) reasons) s = s \<lparr> completed := completed s + length reasons \<rparr>"
proof (induction reasons arbitrary: s)
  case Nil
  then show ?case by (simp add: run_Nil)
next
  case (Cons r reasons)
  let ?s' = "s \<lparr> completed := Suc (completed s) \<rparr>"
  have st: "restart_request i r s = ?s'"
    using Cons.prems by (simp add: restart_request_def)
  have "map_of (restartInFlight ?s') i = Some True"
    using Cons.prems by simp
  from Cons.IH [OF this] show ?case
    by (simp add: run_Cons st)
qed

lemma map_of_filter_key [simp]: "map_of (filter (\<lambda>p. fst p \<noteq> k) m) k = None"
  by (induction m) auto

lemma worker_at_assign: "worker_at (s \<lparr> workers := assign_slot (workers s) i v \<rparr>) i = v"
  by (auto simp: worker_at_def assign_slot_def nth_append)

text \<open>
  Claim C7. With no restart of slot \<open>i\<close> in flight, take a restart request for \<open>i\<close>,
  any number of further requests for \<open>i\<close> while the worker terminates, the settling of
  the termination, any number of further requests before the first call ends, and the end
  of the first call. Then exactly one worker has been terminated (the old one of the
  slot) and exactly one constructed (in the slot), the requests pending on the slot have
  been rejected once, every call has returned, and no restart of \<open>i\<close> is in flight. A
  request that finds a restart of its slot in flight changes neither the workers nor the
  pending requests, and terminates, constructs and rejects nothing.
\<close>

theorem restart_is_single_flight:
  assumes idle: "map_of (restartInFlight s) i = None"
    and nobody: "i \<notin> set (awaiting s)"
    and w: "worker_at s i = Some w"
  shows "(let s' = run ([RestartRequest i reason] @ map (RestartRequest i) during
                      @ [TerminateSettled i] @ map (RestartRequest i) after @ [OwnerResumes i]) s
          in terminated s' = terminated s @ [w]
             \<and> created s' = created s @ [(i, fresh s)]
             \<and> worker_at s' i = Some (fresh s)
             \<and> map fst (rejected s') = map fst (rejected s)
                  @ map fst (filter (\<lambda>p. snd p = i) (pendingRequests s))
             \<and> pendingRequests s' = filter (\<lambda>p. snd p \<noteq> i) (pendingRequests s)
             \<and> completed s' = completed s + 1 + length during + length after
             \<and> map_of (restartInFlight s') i = None)
    \<and> (map_of (restartInFlight x) i = Some b \<longrightarrow>
          workers (restart_request i r x) = workers x
          \<and> terminated (restart_request i r x) = terminated x
          \<and> created (restart_request i r x) = created x
          \<and> rejected (restart_request i r x) = rejected x
          \<and> pendingRequests (restart_request i r x) = pendingRequests x
          \<and> restartInFlight (restart_request i r x) = restartInFlight x)"
proof (intro conjI impI)
  define msg where "msg = ''Worker restarting: '' @ (if reason = [] then ''unknown reason'' else reason)"
  define s0 where "s0 = rejectPendingForWorker i msg s"
  define s1 where "s1 = s0 \<lparr> terminated := terminated s0 @ [w],
      restartInFlight := map_set i False (restartInFlight s0) \<rparr>"
  define s2 where "s2 = s1 \<lparr> awaiting := awaiting s1 @ replicate (length during) i \<rparr>"
  define s3 where "s3 = terminate_settled i s2"
  define s4 where "s4 = s3 \<lparr> completed := completed s3 + length after \<rparr>"
  define s5 where "s5 = owner_resumes i s4"
  have w0: "worker_at s0 i = Some w"
    using w by (simp add: s0_def rejectPendingForWorker_def worker_at_def split: if_splits)
  have r1: "restart_request i reason s = s1"
    using idle w0 by (simp add: restart_request_def Let_def s1_def s0_def msg_def)
  have f1: "map_of (restartInFlight s1) i = Some False"
    by (simp add: s1_def map_of_map_set)
  have r2: "run (map (RestartRequest i) during) s1 = s2"
    using run_requests_running [OF f1] by (simp add: s2_def)
  have f2: "map_of (restartInFlight s2) i = Some False"
    using f1 by (simp add: s2_def)
  have f3: "map_of (restartInFlight s3) i = Some True"
    using f2 by (simp add: s3_def terminate_settled_def Let_def map_of_map_set createWorker_def)
  have r4: "run (map (RestartRequest i) after) s3 = s4"
    using run_requests_settled [OF f3] by (simp add: s4_def)
  have f4: "map_of (restartInFlight s4) i = Some True"
    using f3 by (simp add: s4_def)
  have all: "run ([RestartRequest i reason] @ map (RestartRequest i) during
                      @ [TerminateSettled i] @ map (RestartRequest i) after @ [OwnerResumes i]) s = s5"
    by (simp add: run_append run_Cons run_Nil r1 r2 r4 s5_def flip: s3_def)
  have aw: "awaiting s2 = awaiting s @ replicate (length during) i"
    by (simp add: s2_def s1_def s0_def rejectPendingForWorker_def)
  have "filter (\<lambda>j. j = i) (awaiting s) = []"
    using nobody by (auto simp: filter_empty_conv)
  then have cnt: "length (filter (\<lambda>j. j = i) (awaiting s2)) = length during"
    by (simp add: aw)
  have t: "terminated s5 = terminated s @ [w]"
    using f2 f4
    by (simp add: s5_def owner_resumes_def s4_def s3_def terminate_settled_def Let_def
        createWorker_def s2_def s1_def s0_def rejectPendingForWorker_def)
  have fr: "fresh s2 = fresh s"
    by (simp add: s2_def s1_def s0_def rejectPendingForWorker_def)
  have c: "created s5 = created s @ [(i, fresh s)]"
    using f2 f4
    by (simp add: s5_def owner_resumes_def s4_def s3_def terminate_settled_def Let_def
        createWorker_def s2_def s1_def s0_def rejectPendingForWorker_def)
  have wk: "worker_at s5 i = Some (fresh s)"
    using f2 f4 fr
    by (simp add: s5_def owner_resumes_def s4_def s3_def terminate_settled_def Let_def
        createWorker_def worker_at_def assign_slot_def nth_append)
  have rj: "map fst (rejected s5) = map fst (rejected s)
      @ map fst (filter (\<lambda>p. snd p = i) (pendingRequests s))"
    using f2 f4
    by (simp add: s5_def owner_resumes_def s4_def s3_def terminate_settled_def Let_def
        createWorker_def s2_def s1_def s0_def rejectPendingForWorker_def comp_def)
  have pd: "pendingRequests s5 = filter (\<lambda>p. snd p \<noteq> i) (pendingRequests s)"
    using f2 f4
    by (simp add: s5_def owner_resumes_def s4_def s3_def terminate_settled_def Let_def
        createWorker_def s2_def s1_def s0_def rejectPendingForWorker_def)
  have c2: "completed s2 = completed s"
    by (simp add: s2_def s1_def s0_def rejectPendingForWorker_def)
  have c3: "completed s3 = completed s + length during"
    using f2 cnt c2
    by (simp add: s3_def terminate_settled_def Let_def createWorker_def)
  have cm: "completed s5 = completed s + 1 + length during + length after"
    using f4 c3 by (simp add: s5_def owner_resumes_def s4_def)
  have fl: "map_of (restartInFlight s5) i = None"
    using f4 by (simp add: s5_def owner_resumes_def)
  show "(let s' = run ([RestartRequest i reason] @ map (RestartRequest i) during
                      @ [TerminateSettled i] @ map (RestartRequest i) after @ [OwnerResumes i]) s
          in terminated s' = terminated s @ [w]
             \<and> created s' = created s @ [(i, fresh s)]
             \<and> worker_at s' i = Some (fresh s)
             \<and> map fst (rejected s') = map fst (rejected s)
                  @ map fst (filter (\<lambda>p. snd p = i) (pendingRequests s))
             \<and> pendingRequests s' = filter (\<lambda>p. snd p \<noteq> i) (pendingRequests s)
             \<and> completed s' = completed s + 1 + length during + length after
             \<and> map_of (restartInFlight s') i = None)"
    unfolding all Let_def using t c wk rj pd cm fl by simp
next
  assume "map_of (restartInFlight x) i = Some b"
  then show "workers (restart_request i r x) = workers x"
    and "terminated (restart_request i r x) = terminated x"
    and "created (restart_request i r x) = created x"
    and "rejected (restart_request i r x) = rejected x"
    and "pendingRequests (restart_request i r x) = pendingRequests x"
    and "restartInFlight (restart_request i r x) = restartInFlight x"
    by (simp_all add: restart_request_joins)
qed

definition manager_example :: WorkerManager where
  "manager_example = \<lparr> workers = [Some 0, Some 1], pendingRequests = [(''r1'', 0), (''r2'', 1)],
     restartInFlight = [], fresh = 2, terminated = [], created = [], rejected = [],
     awaiting = [], completed = 0 \<rparr>"

theorem restart_is_single_flight_witness:
  "map_of (restartInFlight manager_example) 0 = None
   \<and> 0 \<notin> set (awaiting manager_example)
   \<and> worker_at manager_example 0 = Some 0
   \<and> terminated (run [RestartRequest 0 ''memory limit exceeded'', RestartRequest 0 ''worker exit: code 1'',
        TerminateSettled 0, OwnerResumes 0] manager_example) = [0]
   \<and> created (run [RestartRequest 0 ''memory limit exceeded'', RestartRequest 0 ''worker exit: code 1'',
        TerminateSettled 0, OwnerResumes 0] manager_example) = [(0, 2)]
   \<and> completed (run [RestartRequest 0 ''memory limit exceeded'', RestartRequest 0 ''worker exit: code 1'',
        TerminateSettled 0, OwnerResumes 0] manager_example) = 2
   \<and> map_of (restartInFlight (restart_request 0 ''memory limit exceeded'' manager_example)) 0 = Some False
   \<and> terminated (restart_request 0 ''worker exit: code 1''
         (restart_request 0 ''memory limit exceeded'' manager_example))
       = terminated (restart_request 0 ''memory limit exceeded'' manager_example)"
proof -
  let ?x = "restart_request 0 ''memory limit exceeded'' manager_example"
  have idle: "map_of (restartInFlight manager_example) 0 = None"
    and nobody: "0 \<notin> set (awaiting manager_example)"
    and w: "worker_at manager_example 0 = Some 0"
    by (simp_all add: manager_example_def worker_at_def)
  have fl: "map_of (restartInFlight ?x) 0 = Some False"
    by (simp add: restart_request_def manager_example_def worker_at_def rejectPendingForWorker_def)
  note t = restart_is_single_flight [OF idle nobody w, of "''memory limit exceeded''"
      "[''worker exit: code 1'']" "[]" ?x False "''worker exit: code 1''"]
  from t have a: "terminated (run [RestartRequest 0 ''memory limit exceeded'', RestartRequest 0 ''worker exit: code 1'',
        TerminateSettled 0, OwnerResumes 0] manager_example) = [0]"
    and b: "created (run [RestartRequest 0 ''memory limit exceeded'', RestartRequest 0 ''worker exit: code 1'',
        TerminateSettled 0, OwnerResumes 0] manager_example) = [(0, 2)]"
    and c: "completed (run [RestartRequest 0 ''memory limit exceeded'', RestartRequest 0 ''worker exit: code 1'',
        TerminateSettled 0, OwnerResumes 0] manager_example) = 2"
    by (simp_all add: Let_def manager_example_def)
  from t fl have d: "terminated (restart_request 0 ''worker exit: code 1'' ?x) = terminated ?x"
    by blast
  show ?thesis
    using idle nobody w a b c fl d by blast
qed

section \<open>Directory traversal\<close>

subsection \<open>The file system and git, as the traversal sees them\<close>

datatype dirent_type = File | Directory | SymbolicLink | Other

record Dirent =
  dirent_name :: string
  dirent_type :: dirent_type

record Stats =
  stat_isDirectory :: bool
  stat_isFile :: bool

text \<open>
  The three calls of \<^verbatim>\<open>node:fs\<close> the traversal makes; \<open>None\<close> is a thrown error (a
  broken link, a missing permission).
\<close>

record FileSystem =
  realpathSync :: "string \<Rightarrow> string option"
  readdir :: "string \<Rightarrow> Dirent list option"
  statSync :: "string \<Rightarrow> Stats option"

text \<open>The two calls of the \<^verbatim>\<open>Git\<close> collaborator the traversal makes.\<close>

record Git =
  isGitRepository :: "string \<Rightarrow> bool"
  getGitFiles :: "string \<Rightarrow> string list"

text \<open>
  Paths are POSIX paths without a trailing slash. \<^verbatim>\<open>path.join(dir, name)\<close> for a
  directory entry, and \<^verbatim>\<open>path.relative(root, p).split(path.sep)\<close> for a path below the
  root.
\<close>

definition path_join :: "string \<Rightarrow> string \<Rightarrow> string" where
  "path_join dir entry_name = dir @ ''/'' @ entry_name"

fun split_sep :: "string \<Rightarrow> string \<Rightarrow> string list" where
  "split_sep part [] = [rev part]"
| "split_sep part (c # s) =
     (if c = CHR ''/'' then rev part # split_sep [] s else split_sep (c # part) s)"

definition relative_parts :: "string \<Rightarrow> string \<Rightarrow> string list" where
  "relative_parts rootDir p =
     (if p = rootDir then ['''']
      else if startsWith p (rootDir @ ''/'') then split_sep [] (drop (length rootDir + 1) p)
      else split_sep [] p)"

definition isHiddenFile :: "string \<Rightarrow> string \<Rightarrow> bool" where
  "isHiddenFile filePath rootDir =
     list_ex (\<lambda>part. startsWith part ''.'' \<and> part \<noteq> ''.'' \<and> part \<noteq> ''..'')
       (relative_parts rootDir filePath)"

text \<open>
  \<^verbatim>\<open>resolveEntry\<close>: \<open>(isDir, isFile, realPath)\<close>, or \<open>None\<close> for a link that cannot
  be resolved. Only a symbolic link is resolved; for every other entry the real path is
  the path itself.
\<close>

definition resolveEntry :: "FileSystem \<Rightarrow> string \<Rightarrow> Dirent \<Rightarrow> (bool \<times> bool \<times> string) option" where
  "resolveEntry fs fullPath entry =
     (if dirent_type entry = SymbolicLink
      then (case realpathSync fs fullPath of
              None \<Rightarrow> None
            | Some realPath \<Rightarrow>
                (case statSync fs fullPath of
                   None \<Rightarrow> None
                 | Some st \<Rightarrow> Some (stat_isDirectory st, stat_isFile st, realPath)))
      else Some (dirent_type entry = Directory, dirent_type entry = File, fullPath))"

subsection \<open>\<^verbatim>\<open>getAllFilesRecursive\<close>\<close>

text \<open>
  The generator, as the list of the paths it yields and the visited set it leaves. The
  recursion is bounded by a fuel that each call into a directory uses up: \<open>None\<close> means
  the fuel did not suffice. \<open>for_entries\<close> is the loop over the entries of \<open>dir\<close>.
\<close>

fun getAllFilesRecursive ::
  "nat \<Rightarrow> FileSystem \<Rightarrow> Git \<Rightarrow> string \<Rightarrow> string \<Rightarrow> string set \<Rightarrow> (string list \<times> string set) option"
and for_entries ::
  "nat \<Rightarrow> FileSystem \<Rightarrow> Git \<Rightarrow> string \<Rightarrow> string \<Rightarrow> Dirent list \<Rightarrow> string set
     \<Rightarrow> (string list \<times> string set) option" where
  "getAllFilesRecursive 0 fs git dir rootDir visited = None"
| "getAllFilesRecursive (Suc fuel) fs git dir rootDir visited =
     (case realpathSync fs dir of
        None \<Rightarrow> Some ([], visited)
      | Some realDir \<Rightarrow>
          if realDir \<in> visited then Some ([], visited)
          else
            (case readdir fs dir of
               None \<Rightarrow> Some ([], insert realDir visited)
             | Some entries \<Rightarrow> for_entries fuel fs git dir rootDir entries (insert realDir visited)))"
| "for_entries fuel fs git dir rootDir [] visited = Some ([], visited)"
| "for_entries fuel fs git dir rootDir (entry # entries) visited =
     (let fullPath = path_join dir (dirent_name entry)
      in if isHiddenFile fullPath rootDir then for_entries fuel fs git dir rootDir entries visited
         else
           (case resolveEntry fs fullPath entry of
              None \<Rightarrow> for_entries fuel fs git dir rootDir entries visited
            | Some (isDir, isFile, realPath) \<Rightarrow>
                if isDir then
                  if realPath \<in> visited then for_entries fuel fs git dir rootDir entries visited
                  else if isGitRepository git fullPath \<and> getGitFiles git fullPath \<noteq> []
                  then
                    (case for_entries fuel fs git dir rootDir entries visited of
                       None \<Rightarrow> None
                     | Some (ys, v) \<Rightarrow> Some (getGitFiles git fullPath @ ys, v))
                  else
                    (case getAllFilesRecursive fuel fs git fullPath rootDir visited of
                       None \<Rightarrow> None
                     | Some (ys1, v1) \<Rightarrow>
                         (case for_entries fuel fs git dir rootDir entries v1 of
                            None \<Rightarrow> None
                          | Some (ys2, v2) \<Rightarrow> Some (ys1 @ ys2, v2)))
                else if isFile then
                  (case for_entries fuel fs git dir rootDir entries visited of
                     None \<Rightarrow> None
                   | Some (ys, v) \<Rightarrow> Some (fullPath # ys, v))
                else for_entries fuel fs git dir rootDir entries visited))"

subsection \<open>Termination and the visited set\<close>

text \<open>
  The paths the loop yields for the entries of a directory themselves (not for what lies
  below them): the entries that are not hidden and resolve to a file.
\<close>

definition visible_files :: "FileSystem \<Rightarrow> string \<Rightarrow> string \<Rightarrow> Dirent list \<Rightarrow> string list" where
  "visible_files fs dir rootDir entries =
     map (\<lambda>entry. path_join dir (dirent_name entry))
       (filter (\<lambda>entry.
          \<not> isHiddenFile (path_join dir (dirent_name entry)) rootDir
          \<and> (case resolveEntry fs (path_join dir (dirent_name entry)) entry of
               None \<Rightarrow> False
             | Some (isDir, isFile, realPath) \<Rightarrow> \<not> isDir \<and> isFile))
        entries)"

definition files_of_directory :: "FileSystem \<Rightarrow> string \<Rightarrow> string \<Rightarrow> string list" where
  "files_of_directory fs rootDir dir =
     (case readdir fs dir of None \<Rightarrow> [] | Some entries \<Rightarrow> visible_files fs dir rootDir entries)"

text \<open>
  A result of the traversal accounts for its yields by the directories \<open>dirs\<close>: the
  yields are the paths \<open>own\<close> and the visible files of each directory of \<open>dirs\<close>, once per
  directory; no two directories of \<open>dirs\<close> have the same real path; and their real paths
  are what the traversal added to the visited set.
\<close>

definition accounts_for ::
  "FileSystem \<Rightarrow> string \<Rightarrow> string set \<Rightarrow> string list \<Rightarrow> string list \<times> string set \<Rightarrow> string list
     \<Rightarrow> bool" where
  "accounts_for fs rootDir visited own res dirs =
     (visited \<subseteq> snd res
      \<and> mset (fst res) = mset own + mset (concat (map (files_of_directory fs rootDir) dirs))
      \<and> distinct (map (realpathSync fs) dirs)
      \<and> realpathSync fs ` set dirs = Some ` (snd res - visited))"

lemma card_unvisited_insert:
  assumes "finite D" and "r \<in> D" and "r \<notin> visited"
  shows "card (D - insert r visited) < card (D - visited)"
proof -
  have "D - insert r visited \<subset> D - visited"
    using assms(2,3) by auto
  then show ?thesis
    using assms(1) by (simp add: psubset_card_mono)
qed

lemma card_unvisited_mono:
  assumes "finite D" and "visited \<subseteq> v"
  shows "card (D - v) \<le> card (D - visited)"
  using assms by (simp add: card_mono Diff_mono)

lemma for_entries_terminates:
  assumes fin: "finite D"
    and rec: "\<And>dir visited. card (D - visited) < fuel \<Longrightarrow>
        \<exists>ys v. getAllFilesRecursive fuel fs git dir rootDir visited = Some (ys, v) \<and> visited \<subseteq> v"
  shows "card (D - visited) < fuel \<Longrightarrow>
    \<exists>ys v. for_entries fuel fs git dir rootDir entries visited = Some (ys, v) \<and> visited \<subseteq> v"
proof (induction entries arbitrary: visited)
  case Nil
  then show ?case by simp
next
  case (Cons entry entries)
  let ?fullPath = "path_join dir (dirent_name entry)"
  obtain ys v where rest: "for_entries fuel fs git dir rootDir entries visited = Some (ys, v)" "visited \<subseteq> v"
    using Cons.IH [OF Cons.prems] by blast
  show ?case
  proof (cases "isHiddenFile ?fullPath rootDir")
    case True
    then show ?thesis using rest by (simp add: Let_def)
  next
    case visible: False
    show ?thesis
    proof (cases "resolveEntry fs ?fullPath entry")
      case None
      then show ?thesis using rest visible by (simp add: Let_def)
    next
      case (Some res)
      obtain isDir isFile realPath where res: "res = (isDir, isFile, realPath)"
        by (cases res)
      show ?thesis
      proof (cases "isDir \<and> realPath \<notin> visited
          \<and> \<not> (isGitRepository git ?fullPath \<and> getGitFiles git ?fullPath \<noteq> [])")
        case False
        then show ?thesis
          using rest visible Some res by (auto simp: Let_def)
      next
        case True
        obtain ys1 v1 where sub: "getAllFilesRecursive fuel fs git ?fullPath rootDir visited = Some (ys1, v1)"
          "visited \<subseteq> v1"
          using rec [OF Cons.prems] by blast
        have "card (D - v1) < fuel"
          using card_unvisited_mono [OF fin sub(2)] Cons.prems by simp
        then obtain ys2 v2 where rest2: "for_entries fuel fs git dir rootDir entries v1 = Some (ys2, v2)"
          "v1 \<subseteq> v2"
          using Cons.IH by blast
        show ?thesis
          using True visible Some res sub rest2 by (auto simp: Let_def)
      qed
    qed
  qed
qed

lemma traversal_terminates_fuel:
  assumes fin: "finite D" and real: "\<And>p r. realpathSync fs p = Some r \<Longrightarrow> r \<in> D"
  shows "card (D - visited) < fuel \<Longrightarrow>
    \<exists>ys v. getAllFilesRecursive fuel fs git dir rootDir visited = Some (ys, v) \<and> visited \<subseteq> v"
proof (induction fuel arbitrary: dir visited)
  case 0
  then show ?case by simp
next
  case (Suc fuel)
  show ?case
  proof (cases "realpathSync fs dir")
    case None
    then show ?thesis by simp
  next
    case (Some realDir)
    show ?thesis
    proof (cases "realDir \<in> visited")
      case True
      then show ?thesis using Some by simp
    next
      case False
      have less: "card (D - insert realDir visited) < fuel"
        using card_unvisited_insert [OF fin real [OF Some] False] Suc.prems by simp
      show ?thesis
      proof (cases "readdir fs dir")
        case None
        then show ?thesis using Some False by auto
      next
        case entries: (Some entries)
        have "\<exists>ys v. for_entries fuel fs git dir rootDir entries (insert realDir visited) = Some (ys, v)
            \<and> insert realDir visited \<subseteq> v"
        proof (rule for_entries_terminates [OF fin _ less])
          fix d vs
          assume "card (D - vs) < fuel"
          then show "\<exists>ys v. getAllFilesRecursive fuel fs git d rootDir vs = Some (ys, v) \<and> vs \<subseteq> v"
            by (rule Suc.IH)
        qed
        then show ?thesis
          using Some False entries by auto
      qed
    qed
  qed
qed

lemma accounts_for_nothing: "accounts_for fs rootDir visited [] ([], visited) []"
  by (simp add: accounts_for_def)

lemma accounts_for_file:
  "accounts_for fs rootDir visited own (ys, v) dirs \<Longrightarrow>
   accounts_for fs rootDir visited (p # own) (p # ys, v) dirs"
  by (simp add: accounts_for_def)

lemma accounts_for_seq:
  assumes a: "accounts_for fs rootDir visited [] (ys1, v1) dirs1"
    and b: "accounts_for fs rootDir v1 own (ys2, v2) dirs2"
  shows "accounts_for fs rootDir visited own (ys1 @ ys2, v2) (dirs1 @ dirs2)"
proof -
  from a have a1: "visited \<subseteq> v1"
    and a2: "mset ys1 = mset (concat (map (files_of_directory fs rootDir) dirs1))"
    and a3: "distinct (map (realpathSync fs) dirs1)"
    and a4: "realpathSync fs ` set dirs1 = Some ` (v1 - visited)"
    by (simp_all add: accounts_for_def)
  from b have b1: "v1 \<subseteq> v2"
    and b2: "mset ys2 = mset own + mset (concat (map (files_of_directory fs rootDir) dirs2))"
    and b3: "distinct (map (realpathSync fs) dirs2)"
    and b4: "realpathSync fs ` set dirs2 = Some ` (v2 - v1)"
    by (simp_all add: accounts_for_def)
  have disj: "realpathSync fs ` set dirs1 \<inter> realpathSync fs ` set dirs2 = {}"
    unfolding a4 b4 by auto
  have dist: "distinct (map (realpathSync fs) (dirs1 @ dirs2))"
    using a3 b3 disj by simp
  have img: "realpathSync fs ` set (dirs1 @ dirs2) = Some ` (v2 - visited)"
    using a1 b1 by (auto simp: image_Un a4 b4)
  have ms: "mset (ys1 @ ys2) = mset own + mset (concat (map (files_of_directory fs rootDir) (dirs1 @ dirs2)))"
    by (simp add: a2 b2)
  have sub: "visited \<subseteq> v2" using a1 b1 by blast
  show ?thesis
    unfolding accounts_for_def fst_conv snd_conv
    using sub ms dist img by (intro conjI)
qed

lemma accounts_for_directory:
  assumes rp: "realpathSync fs dir = Some realDir" and new: "realDir \<notin> visited"
    and own: "files_of_directory fs rootDir dir = own"
    and b: "accounts_for fs rootDir (insert realDir visited) own (ys, v) dirs"
  shows "accounts_for fs rootDir visited [] (ys, v) (dir # dirs)"
proof -
  from b have b1: "insert realDir visited \<subseteq> v"
    and b2: "mset ys = mset own + mset (concat (map (files_of_directory fs rootDir) dirs))"
    and b3: "distinct (map (realpathSync fs) dirs)"
    and b4: "realpathSync fs ` set dirs = Some ` (v - insert realDir visited)"
    by (simp_all add: accounts_for_def)
  have notin: "realpathSync fs dir \<notin> realpathSync fs ` set dirs"
    unfolding b4 rp by auto
  have dist: "distinct (map (realpathSync fs) (dir # dirs))"
    using b3 notin by simp
  have img: "realpathSync fs ` set (dir # dirs) = Some ` (v - visited)"
    using b1 new by (auto simp: b4 rp)
  have ms: "mset ys = mset [] + mset (concat (map (files_of_directory fs rootDir) (dir # dirs)))"
    by (simp add: b2 own)
  have sub: "visited \<subseteq> v" using b1 by blast
  show ?thesis
    unfolding accounts_for_def fst_conv snd_conv
    using sub ms dist img by (intro conjI)
qed

lemma visible_files_Cons:
  "visible_files fs dir rootDir (entry # entries)
     = (if \<not> isHiddenFile (path_join dir (dirent_name entry)) rootDir
           \<and> (case resolveEntry fs (path_join dir (dirent_name entry)) entry of
                None \<Rightarrow> False
              | Some (isDir, isFile, realPath) \<Rightarrow> \<not> isDir \<and> isFile)
        then [path_join dir (dirent_name entry)] else [])
       @ visible_files fs dir rootDir entries"
  by (simp add: visible_files_def)

lemma for_entries_once:
  assumes fin: "finite D"
    and nogit: "\<And>p. isGitRepository git p \<Longrightarrow> getGitFiles git p = []"
    and rec: "\<And>dir visited. card (D - visited) < fuel \<Longrightarrow>
        \<exists>res dirs. getAllFilesRecursive fuel fs git dir rootDir visited = Some res
          \<and> accounts_for fs rootDir visited [] res dirs"
  shows "card (D - visited) < fuel \<Longrightarrow>
    \<exists>res dirs. for_entries fuel fs git dir rootDir entries visited = Some res
      \<and> accounts_for fs rootDir visited (visible_files fs dir rootDir entries) res dirs"
proof (induction entries arbitrary: visited)
  case Nil
  have "for_entries fuel fs git dir rootDir [] visited = Some ([], visited)"
    by simp
  moreover have "accounts_for fs rootDir visited (visible_files fs dir rootDir []) ([], visited) []"
    by (simp add: visible_files_def accounts_for_nothing)
  ultimately show ?case by blast
next
  case (Cons entry entries)
  let ?fullPath = "path_join dir (dirent_name entry)"
  obtain ys v dirs where rest: "for_entries fuel fs git dir rootDir entries visited = Some (ys, v)"
    and acc: "accounts_for fs rootDir visited (visible_files fs dir rootDir entries) (ys, v) dirs"
    using Cons.IH [OF Cons.prems] by (metis surj_pair)
  show ?case
  proof (cases "isHiddenFile ?fullPath rootDir")
    case True
    then have "for_entries fuel fs git dir rootDir (entry # entries) visited = Some (ys, v)"
      using rest by (simp add: Let_def)
    moreover have "visible_files fs dir rootDir (entry # entries) = visible_files fs dir rootDir entries"
      using True by (simp add: visible_files_Cons)
    ultimately show ?thesis using acc by metis
  next
    case visible: False
    show ?thesis
    proof (cases "resolveEntry fs ?fullPath entry")
      case None
      then have "for_entries fuel fs git dir rootDir (entry # entries) visited = Some (ys, v)"
        using rest visible by (simp add: Let_def)
      moreover have "visible_files fs dir rootDir (entry # entries) = visible_files fs dir rootDir entries"
        using None by (simp add: visible_files_Cons)
      ultimately show ?thesis using acc by metis
    next
      case (Some res)
      obtain isDir isFile realPath where res: "res = (isDir, isFile, realPath)"
        by (cases res)
      note r = Some [unfolded res]
      show ?thesis
      proof (cases isDir)
        case False
        show ?thesis
        proof (cases isFile)
          case True
          then have "for_entries fuel fs git dir rootDir (entry # entries) visited = Some (?fullPath # ys, v)"
            using rest visible r False by (simp add: Let_def)
          moreover have "visible_files fs dir rootDir (entry # entries)
              = ?fullPath # visible_files fs dir rootDir entries"
            using visible r False True by (simp add: visible_files_Cons)
          ultimately show ?thesis
            using accounts_for_file [OF acc, of ?fullPath] by metis
        next
          case nofile: False
          then have "for_entries fuel fs git dir rootDir (entry # entries) visited = Some (ys, v)"
            using rest visible r False by (simp add: Let_def)
          moreover have "visible_files fs dir rootDir (entry # entries) = visible_files fs dir rootDir entries"
            using r nofile by (simp add: visible_files_Cons)
          ultimately show ?thesis using acc by metis
        qed
      next
        case isDir: True
        then have vf: "visible_files fs dir rootDir (entry # entries) = visible_files fs dir rootDir entries"
          using r by (simp add: visible_files_Cons)
        show ?thesis
        proof (cases "realPath \<in> visited")
          case True
          then have "for_entries fuel fs git dir rootDir (entry # entries) visited = Some (ys, v)"
            using rest visible r isDir by (simp add: Let_def)
          then show ?thesis using acc vf by metis
        next
          case unvisited: False
          obtain ys1 v1 dirs1 where sub:
            "getAllFilesRecursive fuel fs git ?fullPath rootDir visited = Some (ys1, v1)"
            and acc1: "accounts_for fs rootDir visited [] (ys1, v1) dirs1"
            using rec [OF Cons.prems] by (metis surj_pair)
          have "visited \<subseteq> v1"
            using acc1 by (simp add: accounts_for_def)
          then have "card (D - v1) < fuel"
            using card_unvisited_mono [OF fin] Cons.prems by (meson le_less_trans)
          then obtain ys2 v2 dirs2 where rest2:
            "for_entries fuel fs git dir rootDir entries v1 = Some (ys2, v2)"
            and acc2: "accounts_for fs rootDir v1 (visible_files fs dir rootDir entries) (ys2, v2) dirs2"
            using Cons.IH by (metis surj_pair)
          have run: "for_entries fuel fs git dir rootDir (entry # entries) visited = Some (ys1 @ ys2, v2)"
          proof (cases "isGitRepository git ?fullPath")
            case True
            then have "getGitFiles git ?fullPath = []" by (rule nogit)
            then show ?thesis
              using visible r isDir unvisited sub rest2 by (simp add: Let_def)
          next
            case False
            then show ?thesis
              using visible r isDir unvisited sub rest2 by (simp add: Let_def)
          qed
          show ?thesis
            using run accounts_for_seq [OF acc1 acc2] vf by metis
        qed
      qed
    qed
  qed
qed

lemma traversal_once_fuel:
  assumes fin: "finite D" and real: "\<And>p r. realpathSync fs p = Some r \<Longrightarrow> r \<in> D"
    and nogit: "\<And>p. isGitRepository git p \<Longrightarrow> getGitFiles git p = []"
  shows "card (D - visited) < fuel \<Longrightarrow>
    \<exists>res dirs. getAllFilesRecursive fuel fs git dir rootDir visited = Some res
      \<and> accounts_for fs rootDir visited [] res dirs"
proof (induction fuel arbitrary: dir visited)
  case 0
  then show ?case by simp
next
  case (Suc fuel)
  show ?case
  proof (cases "realpathSync fs dir")
    case None
    then have "getAllFilesRecursive (Suc fuel) fs git dir rootDir visited = Some ([], visited)"
      by simp
    then show ?thesis using accounts_for_nothing by metis
  next
    case (Some realDir)
    show ?thesis
    proof (cases "realDir \<in> visited")
      case True
      then have "getAllFilesRecursive (Suc fuel) fs git dir rootDir visited = Some ([], visited)"
        using Some by simp
      then show ?thesis using accounts_for_nothing by metis
    next
      case False
      have less: "card (D - insert realDir visited) < fuel"
        using card_unvisited_insert [OF fin real [OF Some] False] Suc.prems by simp
      show ?thesis
      proof (cases "readdir fs dir")
        case None
        then have run: "getAllFilesRecursive (Suc fuel) fs git dir rootDir visited
            = Some ([], insert realDir visited)"
          using Some False by simp
        have own: "files_of_directory fs rootDir dir = []"
          using None by (simp add: files_of_directory_def)
        have "accounts_for fs rootDir (insert realDir visited) [] ([], insert realDir visited) []"
          by (rule accounts_for_nothing)
        from accounts_for_directory [OF Some False own this] run show ?thesis
          by metis
      next
        case entries: (Some entries)
        have "\<exists>res dirs. for_entries fuel fs git dir rootDir entries (insert realDir visited) = Some res
            \<and> accounts_for fs rootDir (insert realDir visited) (visible_files fs dir rootDir entries) res dirs"
        proof (rule for_entries_once [OF fin nogit _ less])
          fix d vs
          assume "card (D - vs) < fuel"
          then show "\<exists>res dirs. getAllFilesRecursive fuel fs git d rootDir vs = Some res
              \<and> accounts_for fs rootDir vs [] res dirs"
            by (rule Suc.IH)
        qed
        then obtain ys v dirs where loop:
          "for_entries fuel fs git dir rootDir entries (insert realDir visited) = Some (ys, v)"
          and acc: "accounts_for fs rootDir (insert realDir visited)
              (visible_files fs dir rootDir entries) (ys, v) dirs"
          by (metis surj_pair)
        have run: "getAllFilesRecursive (Suc fuel) fs git dir rootDir visited = Some (ys, v)"
          using Some False entries loop by simp
        have own: "files_of_directory fs rootDir dir = visible_files fs dir rootDir entries"
          using entries by (simp add: files_of_directory_def)
        from accounts_for_directory [OF Some False own acc] run show ?thesis
          by metis
      qed
    qed
  qed
qed

text \<open>
  The traversal returns when the real paths of the file system lie in a finite set \<open>D\<close>,
  whatever links point where and whatever git answers: a fuel above the number of real
  paths not yet visited suffices.
\<close>

lemma traversal_terminates:
  assumes "finite D" and "\<And>p r. realpathSync fs p = Some r \<Longrightarrow> r \<in> D"
  shows "\<exists>ys v. getAllFilesRecursive (Suc (card (D - visited))) fs git dir rootDir visited = Some (ys, v)
    \<and> visited \<subseteq> v"
  using assms(1) by (rule traversal_terminates_fuel) (simp_all add: assms(2))

text \<open>
  Where git lists nothing for the directories it takes for repositories, the traversal
  lists directories with pairwise different real paths, and yields the visible files of
  each of them once.
\<close>

lemma traversal_lists_each_directory_once:
  assumes "finite D" and "\<And>p r. realpathSync fs p = Some r \<Longrightarrow> r \<in> D"
    and "\<And>p. isGitRepository git p \<Longrightarrow> getGitFiles git p = []"
  shows "\<exists>res dirs. getAllFilesRecursive (Suc (card (D - visited))) fs git dir rootDir visited = Some res
    \<and> accounts_for fs rootDir visited [] res dirs"
  using assms(1) by (rule traversal_once_fuel) (simp_all add: assms(2,3))

subsection \<open>A directory that links to itself\<close>

text \<open>
  The tree of the test "handles circular symlinks without infinite loops": \<open>/t/circular\<close>
  holds \<open>file.txt\<close> and a link to itself.
\<close>

definition circular_fs :: FileSystem where
  "circular_fs =
     \<lparr> realpathSync = map_of [(''/t'', ''/t''), (''/t/circular'', ''/t/circular''),
         (''/t/circular/link-to-parent'', ''/t/circular'')],
       readdir = map_of
         [(''/t'', [\<lparr> dirent_name = ''circular'', dirent_type = Directory \<rparr>]),
          (''/t/circular'', [\<lparr> dirent_name = ''file.txt'', dirent_type = File \<rparr>,
                             \<lparr> dirent_name = ''link-to-parent'', dirent_type = SymbolicLink \<rparr>]),
          (''/t/circular/link-to-parent'',
             [\<lparr> dirent_name = ''file.txt'', dirent_type = File \<rparr>,
              \<lparr> dirent_name = ''link-to-parent'', dirent_type = SymbolicLink \<rparr>])],
       statSync = map_of
         [(''/t/circular/link-to-parent'', \<lparr> stat_isDirectory = True, stat_isFile = False \<rparr>)] \<rparr>"

definition no_git :: Git where
  "no_git = \<lparr> isGitRepository = (\<lambda>p. False), getGitFiles = (\<lambda>p. []) \<rparr>"

lemma circular_link_is_followed_once:
  "getAllFilesRecursive 3 circular_fs no_git ''/t'' ''/t'' {}
     = Some ([''/t/circular/file.txt''], {''/t'', ''/t/circular''})"
  by code_simp

subsection \<open>A nested repository reached twice\<close>

text \<open>
  The tree \<open>/r\<close> holds the directory \<open>pkg\<close>, a git repository with the tracked file
  \<open>index.ts\<close>, and the symbolic link \<open>link\<close> to \<open>pkg\<close>.
\<close>

definition nested_fs :: FileSystem where
  "nested_fs =
     \<lparr> realpathSync = map_of [(''/r'', ''/r''), (''/r/pkg'', ''/r/pkg''), (''/r/link'', ''/r/pkg'')],
       readdir = map_of
         [(''/r'', [\<lparr> dirent_name = ''link'', dirent_type = SymbolicLink \<rparr>,
                    \<lparr> dirent_name = ''pkg'', dirent_type = Directory \<rparr>]),
          (''/r/pkg'', [\<lparr> dirent_name = ''.git'', dirent_type = Directory \<rparr>,
                        \<lparr> dirent_name = ''index.ts'', dirent_type = File \<rparr>]),
          (''/r/link'', [\<lparr> dirent_name = ''.git'', dirent_type = Directory \<rparr>,
                         \<lparr> dirent_name = ''index.ts'', dirent_type = File \<rparr>])],
       statSync = map_of [(''/r/link'', \<lparr> stat_isDirectory = True, stat_isFile = False \<rparr>)] \<rparr>"

definition nested_git :: Git where
  "nested_git =
     \<lparr> isGitRepository = (\<lambda>p. p = ''/r/pkg'' \<or> p = ''/r/link''),
       getGitFiles = (\<lambda>p. if p = ''/r/pkg'' \<or> p = ''/r/link'' then [path_join p ''index.ts''] else []) \<rparr>"

text \<open>
  Claim C8 on this tree: the entry \<open>link\<close> is a directory whose real path \<open>/r/pkg\<close> is
  not visited, and a repository, so its tracked files are yielded; the entry \<open>pkg\<close> is
  treated the same way, since the branch for repositories adds nothing to the visited
  set. The one file of the real directory \<open>/r/pkg\<close> is yielded twice.
\<close>

theorem nested_repository_is_listed_twice:
  "getAllFilesRecursive 3 nested_fs nested_git ''/r'' ''/r'' {}
     = Some ([''/r/link/index.ts'', ''/r/pkg/index.ts''], {''/r''})"
  by code_simp

end
